theory Spec2Isabelle
  imports Main "HOL-Library.Char_ord" "HOL-Library.List_Lexorder" "HOL-Library.Product_Lexorder"
    "HOL-Library.Multiset"
begin

section \<open>Python values and their primitive operations\<close>

text \<open>
  MiniDB stores and computes with dynamically typed Python values.  The embedding covers
  \<open>None\<close>, \<open>int\<close> (unbounded), \<open>str\<close> and \<open>bool\<close>.  Python \<open>float\<close>, \<open>date\<close> and
  \<open>datetime\<close> values (FLOAT, DATE and TIMESTAMP columns) are not part of the value type:
  an operation whose result would be a float returns the error \<open>NotModelled\<close>.
  Strings are byte lists; their order is the lexicographic order of the bytes.
\<close>

datatype val = VNull | VInt int | VStr string | VBool bool

text \<open>
  Every \<open>raise\<close> of the source is a value.  All \<open>ValueError\<close>s of the source carry a short
  tag in place of the formatted message.
\<close>

datatype error =
    TypeError
  | AttributeError
  | IndexError
  | ValueError string
  | NotModelled string

text \<open>\<open>bool\<close> is a subclass of \<open>int\<close> in Python: \<open>True\<close> counts as 1 and \<open>False\<close> as 0.\<close>

fun num_of :: "val \<Rightarrow> int option" where
  "num_of (VInt i) = Some i"
| "num_of (VBool b) = Some (if b then 1 else 0)"
| "num_of _ = None"

text \<open>Python \<open>a == b\<close>.\<close>

fun py_eq :: "val \<Rightarrow> val \<Rightarrow> bool" where
  "py_eq VNull VNull = True"
| "py_eq (VStr s) (VStr t) = (s = t)"
| "py_eq a b = (case (num_of a, num_of b) of (Some i, Some j) \<Rightarrow> i = j | _ \<Rightarrow> False)"

text \<open>Python \<open>a < b\<close> and \<open>a <= b\<close>; unorderable operands raise \<open>TypeError\<close>.\<close>

fun py_lt :: "val \<Rightarrow> val \<Rightarrow> error + bool" where
  "py_lt (VStr s) (VStr t) = Inr (s < t)"
| "py_lt a b = (case (num_of a, num_of b) of (Some i, Some j) \<Rightarrow> Inr (i < j) | _ \<Rightarrow> Inl TypeError)"

fun py_le :: "val \<Rightarrow> val \<Rightarrow> error + bool" where
  "py_le (VStr s) (VStr t) = Inr (s \<le> t)"
| "py_le a b = (case (num_of a, num_of b) of (Some i, Some j) \<Rightarrow> Inr (i \<le> j) | _ \<Rightarrow> Inl TypeError)"

definition py_gt :: "val \<Rightarrow> val \<Rightarrow> error + bool" where
  "py_gt a b = py_lt b a"

definition py_ge :: "val \<Rightarrow> val \<Rightarrow> error + bool" where
  "py_ge a b = py_le b a"

text \<open>Python \<open>bool(v)\<close>.\<close>

fun py_truthy :: "val \<Rightarrow> bool" where
  "py_truthy VNull = False"
| "py_truthy (VInt i) = (i \<noteq> 0)"
| "py_truthy (VStr s) = (s \<noteq> [])"
| "py_truthy (VBool b) = b"

text \<open>Python \<open>v or 0\<close>.\<close>

definition or_zero :: "val \<Rightarrow> val" where
  "or_zero v = (if py_truthy v then v else VInt 0)"

fun py_add :: "val \<Rightarrow> val \<Rightarrow> error + val" where
  "py_add (VStr s) (VStr t) = Inr (VStr (s @ t))"
| "py_add a b = (case (num_of a, num_of b) of (Some i, Some j) \<Rightarrow> Inr (VInt (i + j)) | _ \<Rightarrow> Inl TypeError)"

fun py_sub :: "val \<Rightarrow> val \<Rightarrow> error + val" where
  "py_sub a b = (case (num_of a, num_of b) of (Some i, Some j) \<Rightarrow> Inr (VInt (i - j)) | _ \<Rightarrow> Inl TypeError)"

text \<open>Python \<open>a * b\<close>: a product of numbers, or a string repeated (zero times for a negative count).\<close>

fun py_mul :: "val \<Rightarrow> val \<Rightarrow> error + val" where
  "py_mul (VStr s) b = (case num_of b of Some j \<Rightarrow> Inr (VStr (concat (replicate (nat j) s))) | None \<Rightarrow> Inl TypeError)"
| "py_mul a (VStr t) = (case num_of a of Some i \<Rightarrow> Inr (VStr (concat (replicate (nat i) t))) | None \<Rightarrow> Inl TypeError)"
| "py_mul a b = (case (num_of a, num_of b) of (Some i, Some j) \<Rightarrow> Inr (VInt (i * j)) | _ \<Rightarrow> Inl TypeError)"

text \<open>
  Python \<open>a / b\<close> with \<open>b\<close> not equal to zero: true division of two numbers gives a float,
  which the value type does not have.
\<close>

fun py_truediv :: "val \<Rightarrow> val \<Rightarrow> error + val" where
  "py_truediv a b = (case (num_of a, num_of b) of (Some i, Some j) \<Rightarrow> Inl (NotModelled ''float'') | _ \<Rightarrow> Inl TypeError)"

fun py_neg :: "val \<Rightarrow> error + val" where
  "py_neg v = (case num_of v of Some i \<Rightarrow> Inr (VInt (- i)) | None \<Rightarrow> Inl TypeError)"

text \<open>Python \<open>x in values\<close> on a list.\<close>

definition py_in :: "val \<Rightarrow> val list \<Rightarrow> bool" where
  "py_in x vs = list_ex (py_eq x) vs"

text \<open>\<open>str.lower()\<close> on ASCII letters.\<close>

definition lower_char :: "char \<Rightarrow> char" where
  "lower_char c =
     (case map_of (zip ''ABCDEFGHIJKLMNOPQRSTUVWXYZ'' ''abcdefghijklmnopqrstuvwxyz'') c of
        Some d \<Rightarrow> d
      | None \<Rightarrow> c)"

definition lower :: "string \<Rightarrow> string" where
  "lower s = map lower_char s"

text \<open>\<open>key.startswith('_')\<close>.\<close>

definition starts_underscore :: "string \<Rightarrow> bool" where
  "starts_underscore k = (case k of [] \<Rightarrow> False | c # _ \<Rightarrow> c = CHR ''_'')"

section \<open>Dictionaries with insertion order\<close>

text \<open>
  A Python \<open>dict\<close> iterates in insertion order; a row is a dictionary from column names to
  values.  \<open>d[k] = v\<close> overwrites in place when the key is present and appends otherwise.
\<close>

type_synonym row = "(string \<times> val) list"

fun dict_set :: "('k \<times> 'v) list \<Rightarrow> 'k \<Rightarrow> 'v \<Rightarrow> ('k \<times> 'v) list" where
  "dict_set [] k v = [(k, v)]"
| "dict_set ((k', v') # d) k v = (if k' = k then (k, v) # d else (k', v') # dict_set d k v)"

text \<open>\<open>d.get(k)\<close>: the value, or \<open>None\<close> when the key is absent.\<close>

definition dict_get :: "row \<Rightarrow> string \<Rightarrow> val" where
  "dict_get d k = (case map_of d k of Some v \<Rightarrow> v | None \<Rightarrow> VNull)"

text \<open>\<open>flat.update(d)\<close>.\<close>

fun dict_update :: "('k \<times> 'v) list \<Rightarrow> ('k \<times> 'v) list \<Rightarrow> ('k \<times> 'v) list" where
  "dict_update flat [] = flat"
| "dict_update flat ((k, v) # d) = dict_update (dict_set flat k v) d"

text \<open>
  The executor's working row (an envelope) maps a table alias to that table's row and the
  bookkeeping key \<open>_row_id\<close> to an integer; after aggregation it is a flat row of scalars.
\<close>

datatype entry = Tbl row | Scalar val

type_synonym envelope = "(string \<times> entry) list"

section \<open>Expressions and their evaluation (executor.py, ExpressionEvaluator)\<close>

text \<open>
  The AST of parser.py.  The fields of the source are untyped: besides AST nodes an
  expression position can hold the string \<open>'*'\<close> (\<open>Star\<close>), a list of expressions (the right
  operand of \<open>IN\<close>) and \<open>None\<close> (the right operand of \<open>IS NULL\<close>).
  \<open>ColumnRef column table alias\<close> keeps the field order of the dataclass.
\<close>

datatype expr =
    Literal val
  | ColumnRef string "string option" "string option"
  | BinaryOp expr string expr
  | UnaryOp string expr
  | FunctionCall string "expr list" bool
  | Star
  | PyList "expr list"
  | PyNone

text \<open>The first entry of a row whose key matches case-insensitively.\<close>

fun find_ci :: "string \<Rightarrow> row \<Rightarrow> val option" where
  "find_ci c [] = None"
| "find_ci c ((k, v) # r) = (if lower k = lower c then Some v else find_ci c r)"

text \<open>
  \<open>_get_column_value\<close>, the loop over \<open>self.tables.items()\<close> for a qualified reference:
  calling \<open>.items()\<close> on an entry that is not a dictionary raises \<open>AttributeError\<close>.
\<close>

fun qualified_ci :: "string \<Rightarrow> string \<Rightarrow> envelope \<Rightarrow> error + val option" where
  "qualified_ci t c [] = Inr None"
| "qualified_ci t c ((name, e) # ts) =
     (if lower name = lower t then
        (case e of
           Scalar _ \<Rightarrow> Inl AttributeError
         | Tbl r \<Rightarrow> (case find_ci c r of Some v \<Rightarrow> Inr (Some v) | None \<Rightarrow> qualified_ci t c ts))
      else qualified_ci t c ts)"

text \<open>The last loop of \<open>_get_column_value\<close>, over \<open>self.tables.values()\<close>.\<close>

fun all_tables_ci :: "string \<Rightarrow> envelope \<Rightarrow> error + val" where
  "all_tables_ci c [] = Inr VNull"
| "all_tables_ci c ((name, e) # ts) =
     (case e of
        Scalar _ \<Rightarrow> Inl AttributeError
      | Tbl r \<Rightarrow> (case find_ci c r of Some v \<Rightarrow> Inr v | None \<Rightarrow> all_tables_ci c ts))"

definition unqualified_value :: "row \<Rightarrow> envelope \<Rightarrow> string \<Rightarrow> error + val" where
  "unqualified_value r tables c =
     (case find_ci c r of Some v \<Rightarrow> Inr v | None \<Rightarrow> all_tables_ci c tables)"

definition get_column_value :: "row \<Rightarrow> envelope \<Rightarrow> string \<Rightarrow> string option \<Rightarrow> error + val" where
  "get_column_value r tables c t =
     (case t of
        None \<Rightarrow> unqualified_value r tables c
      | Some tn \<Rightarrow>
          if tn = [] then unqualified_value r tables c
          else (case map_of tables tn of
                  Some (Tbl tr) \<Rightarrow> Inr (dict_get tr c)
                | Some (Scalar _) \<Rightarrow> Inl AttributeError
                | None \<Rightarrow>
                    (case qualified_ci tn c tables of
                       Inl e \<Rightarrow> Inl e
                     | Inr (Some v) \<Rightarrow> Inr v
                     | Inr None \<Rightarrow> unqualified_value r tables c)))"

text \<open>
  \<open>_eval_binary_op\<close> once both operands are evaluated: the logical, comparison and
  arithmetic operators, in the order of the source.  The four ordering operators test
  their operands for \<open>None\<close>; \<open>=\<close> and \<open>!=\<close> are Python's \<open>==\<close> and \<open>!=\<close>.
\<close>

definition binary_result :: "string \<Rightarrow> val \<Rightarrow> val \<Rightarrow> error + val" where
  "binary_result operator left right =
     (if operator = ''AND'' then Inr (VBool (py_truthy left \<and> py_truthy right))
      else if operator = ''OR'' then Inr (VBool (py_truthy left \<or> py_truthy right))
      else if operator = ''='' then Inr (VBool (py_eq left right))
      else if operator = ''!='' \<or> operator = ''<>'' then Inr (VBool (\<not> py_eq left right))
      else if operator = ''<'' then
        (if left \<noteq> VNull \<and> right \<noteq> VNull then map_sum id VBool (py_lt left right) else Inr (VBool False))
      else if operator = ''>'' then
        (if left \<noteq> VNull \<and> right \<noteq> VNull then map_sum id VBool (py_gt left right) else Inr (VBool False))
      else if operator = ''<='' then
        (if left \<noteq> VNull \<and> right \<noteq> VNull then map_sum id VBool (py_le left right) else Inr (VBool False))
      else if operator = ''>='' then
        (if left \<noteq> VNull \<and> right \<noteq> VNull then map_sum id VBool (py_ge left right) else Inr (VBool False))
      else if operator = ''+'' then py_add (or_zero left) (or_zero right)
      else if operator = ''-'' then py_sub (or_zero left) (or_zero right)
      else if operator = ''*'' then py_mul (or_zero left) (or_zero right)
      else if operator = ''/'' then
        (if py_eq right (VInt 0) then Inr VNull else py_truediv (or_zero left) right)
      else Inr VNull)"

text \<open>
  \<open>LIKE\<close> with both operands present hands a rewritten pattern to Python's regular
  expression engine, which is outside the embedding.
\<close>

definition like_result :: "val \<Rightarrow> val \<Rightarrow> error + val" where
  "like_result left pattern =
     (if left = VNull \<or> pattern = VNull then Inr (VBool False)
      else (case pattern of VStr _ \<Rightarrow> Inl (NotModelled ''re.match'') | _ \<Rightarrow> Inl AttributeError))"

definition unary_result :: "string \<Rightarrow> val \<Rightarrow> error + val" where
  "unary_result operator operand =
     (if operator = ''NOT'' then Inr (VBool (\<not> py_truthy operand))
      else if operator = ''-'' then py_neg (or_zero operand)
      else Inr operand)"

text \<open>
  \<open>evaluate\<close>, \<open>_eval_binary_op\<close>, \<open>_eval_unary_op\<close> and \<open>_eval_function\<close>.  A list in
  expression position is returned as the list object itself, which is not a value of the
  embedding.
\<close>

fun evaluate :: "row \<Rightarrow> envelope \<Rightarrow> expr \<Rightarrow> error + val"
  and evaluate_list :: "row \<Rightarrow> envelope \<Rightarrow> expr list \<Rightarrow> error + val list" where
  "evaluate r tables (Literal v) = Inr v"
| "evaluate r tables (ColumnRef c t a) = get_column_value r tables c t"
| "evaluate r tables (BinaryOp l operator rt) =
     (if operator = ''IS NULL'' then
        (case evaluate r tables l of Inl e \<Rightarrow> Inl e | Inr left \<Rightarrow> Inr (VBool (left = VNull)))
      else if operator = ''IS NOT NULL'' then
        (case evaluate r tables l of Inl e \<Rightarrow> Inl e | Inr left \<Rightarrow> Inr (VBool (left \<noteq> VNull)))
      else if operator = ''IN'' then
        (case evaluate r tables l of
           Inl e \<Rightarrow> Inl e
         | Inr left \<Rightarrow>
             (case rt of
                PyList es \<Rightarrow>
                  (case evaluate_list r tables es of
                     Inl e \<Rightarrow> Inl e
                   | Inr vs \<Rightarrow> Inr (VBool (py_in left vs)))
              | _ \<Rightarrow> Inr (VBool False)))
      else if operator = ''LIKE'' then
        (case evaluate r tables l of
           Inl e \<Rightarrow> Inl e
         | Inr left \<Rightarrow>
             (case evaluate r tables rt of
                Inl e \<Rightarrow> Inl e
              | Inr pattern \<Rightarrow> like_result left pattern))
      else
        (case evaluate r tables l of
           Inl e \<Rightarrow> Inl e
         | Inr left \<Rightarrow>
             (case evaluate r tables rt of
                Inl e \<Rightarrow> Inl e
              | Inr right \<Rightarrow> binary_result operator left right)))"
| "evaluate r tables (UnaryOp operator e) =
     (case evaluate r tables e of Inl err \<Rightarrow> Inl err | Inr operand \<Rightarrow> unary_result operator operand)"
| "evaluate r tables (FunctionCall name args dist) = Inr VNull"
| "evaluate r tables Star = Inr (VStr ''*'')"
| "evaluate r tables (PyList es) = Inl (NotModelled ''list'')"
| "evaluate r tables PyNone = Inr VNull"
| "evaluate_list r tables [] = Inr []"
| "evaluate_list r tables (e # es) =
     (case evaluate r tables e of
        Inl err \<Rightarrow> Inl err
      | Inr v \<Rightarrow> (case evaluate_list r tables es of Inl err \<Rightarrow> Inl err | Inr vs \<Rightarrow> Inr (v # vs)))"

text \<open>\<open>_flatten_row\<close>: keys that start with an underscore are dropped, table rows are merged.\<close>

fun flatten_into :: "row \<Rightarrow> envelope \<Rightarrow> row" where
  "flatten_into flat [] = flat"
| "flatten_into flat ((k, e) # rest) =
     (if starts_underscore k then flatten_into flat rest
      else (case e of
              Tbl d \<Rightarrow> flatten_into (dict_update flat d) rest
            | Scalar v \<Rightarrow> flatten_into (dict_set flat k v) rest))"

definition flatten_row :: "envelope \<Rightarrow> row" where
  "flatten_row row_data = flatten_into [] row_data"

text \<open>
  The WHERE stage of \<open>_execute_select\<close>: a row is kept when the predicate, evaluated on
  the flattened row with the envelope as tables, is truthy.
\<close>

fun where_filter :: "expr \<Rightarrow> envelope list \<Rightarrow> error + envelope list" where
  "where_filter w [] = Inr []"
| "where_filter w (row_data # rows) =
     (case evaluate (flatten_row row_data) row_data w of
        Inl e \<Rightarrow> Inl e
      | Inr v \<Rightarrow>
          (case where_filter w rows of
             Inl e \<Rightarrow> Inl e
           | Inr kept \<Rightarrow> Inr (if py_truthy v then row_data # kept else kept)))"

definition apply_where :: "expr option \<Rightarrow> envelope list \<Rightarrow> error + envelope list" where
  "apply_where w rows = (case w of None \<Rightarrow> Inr rows | Some p \<Rightarrow> where_filter p rows)"

section \<open>Stages of SELECT (executor.py, QueryExecutor)\<close>

datatype join_type = INNER | LEFT | RIGHT | CROSS

datatype order_direction = ASC | DESC

record table_ref =
  tr_name :: string
  tr_alias :: "string option"

record join_clause =
  jc_table :: table_ref
  jc_join_type :: join_type
  jc_condition :: "expr option"

record order_by_item =
  ob_expr :: expr
  direction :: order_direction

text \<open>
  A select-list item is \<open>'*'\<close>, an expression, or a pair of an expression and its alias;
  the first two are expressions of the embedding.
\<close>

datatype select_item = Item expr | Aliased expr string

record select_statement =
  columns :: "select_item list"
  from_table :: "table_ref option"
  joins :: "join_clause list"
  where_clause :: "expr option"
  group_by :: "expr list"
  having :: "expr option"
  order_by :: "order_by_item list"
  limit :: "int option"
  offset :: "int option"
  distinct_rows :: bool

subsection \<open>LIMIT and OFFSET\<close>

text \<open>Python slices \<open>rows[n:]\<close> and \<open>rows[:n]\<close>; a negative bound counts from the end.\<close>

definition slice_from :: "int \<Rightarrow> 'a list \<Rightarrow> 'a list" where
  "slice_from n xs = (if 0 \<le> n then drop (nat n) xs else drop (length xs - nat (- n)) xs)"

definition slice_to :: "int \<Rightarrow> 'a list \<Rightarrow> 'a list" where
  "slice_to n xs = (if 0 \<le> n then take (nat n) xs else take (length xs - nat (- n)) xs)"

text \<open>\<open>if stmt.offset:\<close> and \<open>if stmt.limit:\<close> test an optional integer: \<open>None\<close> and 0 are false.\<close>

definition opt_int_truthy :: "int option \<Rightarrow> bool" where
  "opt_int_truthy n = (case n of None \<Rightarrow> False | Some k \<Rightarrow> k \<noteq> 0)"

text \<open>The stage ``Apply LIMIT and OFFSET'' of \<open>_execute_select\<close>.\<close>

definition apply_limit_offset :: "select_statement \<Rightarrow> 'a list \<Rightarrow> 'a list" where
  "apply_limit_offset stmt rows =
     (let rows1 = (case offset stmt of
                     Some n \<Rightarrow> if opt_int_truthy (Some n) then slice_from n rows else rows
                   | None \<Rightarrow> rows)
      in (case limit stmt of
            Some n \<Rightarrow> if opt_int_truthy (Some n) then slice_to n rows1 else rows1
          | None \<Rightarrow> rows1))"

subsection \<open>Aggregates\<close>

text \<open>
  The loop of \<open>_compute_aggregate\<close> that collects the value stream: 1 for every \<open>'*'\<close>
  argument, and the value of every other argument unless it is \<open>None\<close>.
\<close>

fun arg_values :: "row \<Rightarrow> envelope \<Rightarrow> expr list \<Rightarrow> error + val list" where
  "arg_values flat row_data [] = Inr []"
| "arg_values flat row_data (arg # args) =
     (if arg = Star then map_sum id (\<lambda>vs. VInt 1 # vs) (arg_values flat row_data args)
      else (case evaluate flat row_data arg of
              Inl e \<Rightarrow> Inl e
            | Inr v \<Rightarrow>
                (case arg_values flat row_data args of
                   Inl e \<Rightarrow> Inl e
                 | Inr vs \<Rightarrow> Inr (if v \<noteq> VNull then v # vs else vs))))"

fun collect_values :: "expr list \<Rightarrow> envelope list \<Rightarrow> error + val list" where
  "collect_values args [] = Inr []"
| "collect_values args (row_data # rows) =
     (case arg_values (flatten_row row_data) row_data args of
        Inl e \<Rightarrow> Inl e
      | Inr vs \<Rightarrow> (case collect_values args rows of Inl e \<Rightarrow> Inl e | Inr ws \<Rightarrow> Inr (vs @ ws)))"

text \<open>
  \<open>list(set(values))\<close>: one representative of every class of equal values.  Python leaves
  the order of the result unspecified; the embedding keeps the first occurrences in order.
\<close>

fun set_list :: "val list \<Rightarrow> val list \<Rightarrow> val list" where
  "set_list seen [] = seen"
| "set_list seen (v # vs) = (if py_in v seen then set_list seen vs else set_list (seen @ [v]) vs)"

text \<open>\<open>sum(values)\<close>, starting from 0.\<close>

fun py_sum :: "val \<Rightarrow> val list \<Rightarrow> error + val" where
  "py_sum acc [] = Inr acc"
| "py_sum acc (v # vs) = (case py_add acc v of Inl e \<Rightarrow> Inl e | Inr acc' \<Rightarrow> py_sum acc' vs)"

text \<open>\<open>min(values)\<close> and \<open>max(values)\<close> on a non-empty list: the first smallest (largest) item.\<close>

fun py_min :: "val \<Rightarrow> val list \<Rightarrow> error + val" where
  "py_min cur [] = Inr cur"
| "py_min cur (v # vs) =
     (case py_lt v cur of Inl e \<Rightarrow> Inl e | Inr b \<Rightarrow> py_min (if b then v else cur) vs)"

fun py_max :: "val \<Rightarrow> val list \<Rightarrow> error + val" where
  "py_max cur [] = Inr cur"
| "py_max cur (v # vs) =
     (case py_gt v cur of Inl e \<Rightarrow> Inl e | Inr b \<Rightarrow> py_max (if b then v else cur) vs)"

text \<open>
  The result of an aggregate.  \<open>AVG\<close> divides with Python's true division, whose result is
  a float: \<open>FloatQuotient s n\<close> stands for the float \<open>s / n\<close>.
\<close>

datatype aggregate = Value val | FloatQuotient int nat

definition aggregate_of :: "string \<Rightarrow> val list \<Rightarrow> error + aggregate" where
  "aggregate_of name vals =
     (if name = ''COUNT'' then Inr (Value (VInt (int (length vals))))
      else if name = ''SUM'' then
        (if vals \<noteq> [] then map_sum id Value (py_sum (VInt 0) vals) else Inr (Value (VInt 0)))
      else if name = ''AVG'' then
        (if vals \<noteq> [] then
           (case py_sum (VInt 0) vals of
              Inl e \<Rightarrow> Inl e
            | Inr s \<Rightarrow> (case num_of s of Some i \<Rightarrow> Inr (FloatQuotient i (length vals)) | None \<Rightarrow> Inl TypeError))
         else Inr (Value VNull))
      else if name = ''MIN'' then
        (case vals of [] \<Rightarrow> Inr (Value VNull) | v # vs \<Rightarrow> map_sum id Value (py_min v vs))
      else if name = ''MAX'' then
        (case vals of [] \<Rightarrow> Inr (Value VNull) | v # vs \<Rightarrow> map_sum id Value (py_max v vs))
      else Inr (Value VNull))"

text \<open>\<open>_compute_aggregate(func, rows)\<close> for \<open>func = FunctionCall name args dist\<close>.\<close>

definition compute_aggregate :: "string \<Rightarrow> expr list \<Rightarrow> bool \<Rightarrow> envelope list \<Rightarrow> error + aggregate" where
  "compute_aggregate name args dist rows =
     (case collect_values args rows of
        Inl e \<Rightarrow> Inl e
      | Inr vals \<Rightarrow> aggregate_of name (if dist then set_list [] vals else vals))"

subsection \<open>ORDER BY\<close>

text \<open>
  The row an ORDER BY expression is evaluated on: the envelope itself when all its values
  are scalars (a row after aggregation), its flattened form otherwise.
\<close>

fun scalars_of :: "envelope \<Rightarrow> row option" where
  "scalars_of [] = Some []"
| "scalars_of ((k, Scalar v) # rest) = map_option (\<lambda>r. (k, v) # r) (scalars_of rest)"
| "scalars_of ((k, Tbl d) # rest) = None"

definition order_row :: "envelope \<Rightarrow> row" where
  "order_row a = (case scalars_of a of Some r \<Rightarrow> r | None \<Rightarrow> flatten_row a)"

text \<open>
  The inner function \<open>compare(a, b)\<close> of \<open>_apply_order_by\<close>, on the rows the two
  evaluators read: the first key that tells the rows apart decides, by its direction.
\<close>

fun compare :: "order_by_item list \<Rightarrow> row \<Rightarrow> row \<Rightarrow> error + int" where
  "compare [] ra rb = Inr 0"
| "compare (item # items) ra rb =
     (case evaluate ra [] (ob_expr item) of
        Inl e \<Rightarrow> Inl e
      | Inr val_a \<Rightarrow>
          (case evaluate rb [] (ob_expr item) of
             Inl e \<Rightarrow> Inl e
           | Inr val_b \<Rightarrow>
               if val_a = VNull \<and> val_b = VNull then compare items ra rb
               else if val_a = VNull then Inr (if direction item = ASC then - 1 else 1)
               else if val_b = VNull then Inr (if direction item = ASC then 1 else - 1)
               else (case py_lt val_a val_b of
                       Inl e \<Rightarrow> Inl e
                     | Inr lt \<Rightarrow>
                         if lt then Inr (if direction item = ASC then - 1 else 1)
                         else (case py_gt val_a val_b of
                                 Inl e \<Rightarrow> Inl e
                               | Inr gt \<Rightarrow>
                                   if gt then Inr (if direction item = ASC then 1 else - 1)
                                   else compare items ra rb))))"

text \<open>
  \<open>sorted(rows, key=cmp_to_key(compare))\<close>.  Python's sort is stable and asks only
  whether \<open>compare(x, y) < 0\<close> for a later item \<open>x\<close> and an earlier item \<open>y\<close>; the embedding
  inserts every row, from left to right, in front of the first row it is smaller than.
  An exception of \<open>compare\<close> ends the sort.
\<close>

fun sorted_insert :: "order_by_item list \<Rightarrow> envelope \<Rightarrow> envelope list \<Rightarrow> error + envelope list" where
  "sorted_insert ob x [] = Inr [x]"
| "sorted_insert ob x (y # ys) =
     (case compare ob (order_row x) (order_row y) of
        Inl e \<Rightarrow> Inl e
      | Inr c \<Rightarrow>
          if c < 0 then Inr (x # y # ys)
          else (case sorted_insert ob x ys of Inl e \<Rightarrow> Inl e | Inr zs \<Rightarrow> Inr (y # zs)))"

fun sort_rows :: "order_by_item list \<Rightarrow> envelope list \<Rightarrow> envelope list \<Rightarrow> error + envelope list" where
  "sort_rows ob acc [] = Inr acc"
| "sort_rows ob acc (x # xs) =
     (case sorted_insert ob x acc of Inl e \<Rightarrow> Inl e | Inr acc' \<Rightarrow> sort_rows ob acc' xs)"

definition apply_order_by :: "envelope list \<Rightarrow> order_by_item list \<Rightarrow> error + envelope list" where
  "apply_order_by rows ob = sort_rows ob [] rows"

section \<open>Column types (types.py)\<close>

datatype data_type = INTEGER | FLOAT | VARCHAR | TEXT | BOOLEAN | DATE | TIMESTAMP

record column_type =
  dtype :: data_type
  size_limit :: "int option"

text \<open>\<open>str(n)\<close> for an integer: decimal digits, with a minus sign for a negative number.\<close>

definition digit_char :: "nat \<Rightarrow> char" where
  "digit_char d = ''0123456789'' ! d"

function digits :: "nat \<Rightarrow> string" where
  "digits n = (if n < 10 then [digit_char n] else digits (n div 10) @ [digit_char (n mod 10)])"
  by pat_completeness auto
termination
  by (relation "measure id") auto

definition str_int :: "int \<Rightarrow> string" where
  "str_int i = (if i < 0 then CHR ''-'' # digits (nat (- i)) else digits (nat i))"

text \<open>\<open>str(v)\<close>.\<close>

fun py_str :: "val \<Rightarrow> string" where
  "py_str VNull = ''None''"
| "py_str (VInt i) = str_int i"
| "py_str (VStr s) = s"
| "py_str (VBool b) = (if b then ''True'' else ''False'')"

text \<open>
  \<open>int(s)\<close> for a string: surrounding whitespace is stripped, a sign may come first, and
  single underscores may separate the decimal digits.  Anything else is a \<open>ValueError\<close>
  (\<open>None\<close> here).
\<close>

definition digit_val :: "char \<Rightarrow> nat option" where
  "digit_val c = map_of (zip ''0123456789'' [0, 1, 2, 3, 4, 5, 6, 7, 8, 9]) c"

definition is_space :: "char \<Rightarrow> bool" where
  "is_space c = (c \<in> set [CHR '' '', CHR 0x09, CHR 0x0A, CHR 0x0B, CHR 0x0C, CHR 0x0D])"

definition strip :: "string \<Rightarrow> string" where
  "strip s = rev (dropWhile is_space (rev (dropWhile is_space s)))"

fun parse_digits :: "nat \<Rightarrow> string \<Rightarrow> nat option" where
  "parse_digits acc [] = Some acc"
| "parse_digits acc (c # cs) =
     (if c = CHR ''_'' then
        (case cs of
           [] \<Rightarrow> None
         | c' # cs' \<Rightarrow> (case digit_val c' of Some d \<Rightarrow> parse_digits (acc * 10 + d) cs' | None \<Rightarrow> None))
      else (case digit_val c of Some d \<Rightarrow> parse_digits (acc * 10 + d) cs | None \<Rightarrow> None))"

definition parse_unsigned :: "string \<Rightarrow> nat option" where
  "parse_unsigned s =
     (case s of
        [] \<Rightarrow> None
      | c # cs \<Rightarrow> (case digit_val c of Some d \<Rightarrow> parse_digits d cs | None \<Rightarrow> None))"

definition int_of_str :: "string \<Rightarrow> int option" where
  "int_of_str s =
     (case strip s of
        [] \<Rightarrow> None
      | c # cs \<Rightarrow>
          if c = CHR ''-'' then map_option (\<lambda>n. - int n) (parse_unsigned cs)
          else if c = CHR ''+'' then map_option int (parse_unsigned cs)
          else map_option int (parse_unsigned (c # cs)))"

text \<open>\<open>int(v)\<close>.\<close>

fun py_int :: "val \<Rightarrow> error + val" where
  "py_int VNull = Inl TypeError"
| "py_int (VInt i) = Inr (VInt i)"
| "py_int (VBool b) = Inr (VInt (if b then 1 else 0))"
| "py_int (VStr s) = (case int_of_str s of Some i \<Rightarrow> Inr (VInt i) | None \<Rightarrow> Inl (ValueError ''invalid literal''))"

text \<open>\<open>str.upper()\<close> on ASCII letters.\<close>

definition upper_char :: "char \<Rightarrow> char" where
  "upper_char c =
     (case map_of (zip ''abcdefghijklmnopqrstuvwxyz'' ''ABCDEFGHIJKLMNOPQRSTUVWXYZ'') c of
        Some d \<Rightarrow> d
      | None \<Rightarrow> c)"

definition upper :: "string \<Rightarrow> string" where
  "upper s = map upper_char s"

text \<open>
  \<open>TypeValidator.validate_and_convert\<close>.  Every exception raised inside the \<open>try\<close> block
  is raised again as a \<open>ValueError\<close>.  Conversions to FLOAT, DATE and TIMESTAMP produce
  values the embedding does not have.
\<close>

definition validate_and_convert :: "val \<Rightarrow> column_type \<Rightarrow> error + val" where
  "validate_and_convert v col_type =
     (if v = VNull then Inr VNull
      else (case dtype col_type of
        INTEGER \<Rightarrow>
          (case py_int v of Inl e \<Rightarrow> Inl (ValueError ''Cannot convert'') | Inr i \<Rightarrow> Inr i)
      | FLOAT \<Rightarrow> Inl (NotModelled ''float'')
      | VARCHAR \<Rightarrow>
          (let str_val = py_str v in
           if (case size_limit col_type of None \<Rightarrow> False | Some n \<Rightarrow> n \<noteq> 0 \<and> int (length str_val) > n)
           then Inl (ValueError ''Cannot convert'')
           else Inr (VStr str_val))
      | TEXT \<Rightarrow> Inr (VStr (py_str v))
      | BOOLEAN \<Rightarrow>
          (case v of
             VBool b \<Rightarrow> Inr (VBool b)
           | VStr s \<Rightarrow>
               if upper s \<in> set [''TRUE'', ''1'', ''YES''] then Inr (VBool True)
               else if upper s \<in> set [''FALSE'', ''0'', ''NO''] then Inr (VBool False)
               else Inr (VBool (py_truthy v))
           | _ \<Rightarrow> Inr (VBool (py_truthy v)))
      | DATE \<Rightarrow>
          (case v of VStr s \<Rightarrow> Inl (NotModelled ''date'') | _ \<Rightarrow> Inl (ValueError ''Cannot convert''))
      | TIMESTAMP \<Rightarrow>
          (case v of VStr s \<Rightarrow> Inl (NotModelled ''datetime'') | _ \<Rightarrow> Inl (ValueError ''Cannot convert''))))"

text \<open>
  \<open>TypeValidator.serialize\<close> and \<open>TypeValidator.deserialize\<close>.  \<open>serialize\<close> returns the
  value itself for VARCHAR and TEXT, and calls \<open>strftime\<close> for DATE and TIMESTAMP, which
  no value of the embedding has (\<open>AttributeError\<close>).
\<close>

definition serialize :: "val \<Rightarrow> column_type \<Rightarrow> error + val" where
  "serialize v col_type =
     (if v = VNull then Inr (VStr ''NULL'')
      else (case dtype col_type of
        INTEGER \<Rightarrow> Inr (VStr (py_str v))
      | FLOAT \<Rightarrow> Inr (VStr (py_str v))
      | BOOLEAN \<Rightarrow> Inr (VStr (py_str v))
      | VARCHAR \<Rightarrow> Inr v
      | TEXT \<Rightarrow> Inr v
      | DATE \<Rightarrow> Inl AttributeError
      | TIMESTAMP \<Rightarrow> Inl AttributeError))"

definition deserialize :: "val \<Rightarrow> column_type \<Rightarrow> error + val" where
  "deserialize v col_type =
     (if v = VStr ''NULL'' then Inr VNull
      else (case dtype col_type of
        INTEGER \<Rightarrow> py_int v
      | FLOAT \<Rightarrow> Inl (NotModelled ''float'')
      | BOOLEAN \<Rightarrow> (case v of VStr s \<Rightarrow> Inr (VBool (lower s = ''true'')) | _ \<Rightarrow> Inl AttributeError)
      | DATE \<Rightarrow> (case v of VStr s \<Rightarrow> Inl (NotModelled ''date'') | _ \<Rightarrow> Inl TypeError)
      | TIMESTAMP \<Rightarrow> (case v of VStr s \<Rightarrow> Inl (NotModelled ''datetime'') | _ \<Rightarrow> Inl TypeError)
      | VARCHAR \<Rightarrow> Inr v
      | TEXT \<Rightarrow> Inr v))"

text \<open>Serialising and reading back.\<close>

definition roundtrip :: "val \<Rightarrow> column_type \<Rightarrow> error + val" where
  "roundtrip v col_type =
     (case serialize v col_type of Inl e \<Rightarrow> Inl e | Inr s \<Rightarrow> deserialize s col_type)"

section \<open>Schemas (schema.py)\<close>

text \<open>
  A column after \<open>__post_init__\<close>: a primary key is also NOT NULL and UNIQUE.  The default
  \<open>None\<close> means that the column has no default.
\<close>

record column =
  name :: string
  col_type :: column_type
  primary_key :: bool
  unique :: bool
  not_null :: bool
  default_value :: val

definition post_init :: "column \<Rightarrow> column" where
  "post_init c = (if primary_key c then c\<lparr>not_null := True, unique := True\<rparr> else c)"

text \<open>
  \<open>unique_columns\<close> is a Python set; it is kept as the list of the names in the order
  they were added.
\<close>

record table_schema =
  table_name :: string
  schema_columns :: "column list"
  schema_primary_key :: "string option"
  unique_columns :: "string list"

definition empty_schema :: "string \<Rightarrow> table_schema" where
  "empty_schema n = \<lparr>table_name = n, schema_columns = [], schema_primary_key = None, unique_columns = []\<rparr>"

text \<open>\<open>TableSchema.add_column\<close>; \<open>if self.primary_key:\<close> tests a string or \<open>None\<close>.\<close>

definition add_column :: "table_schema \<Rightarrow> column \<Rightarrow> error + table_schema" where
  "add_column sch c =
     (if lower (name c) \<in> set (map (\<lambda>c'. lower (name c')) (schema_columns sch))
      then Inl (ValueError ''Column already exists'')
      else if primary_key c \<and> (case schema_primary_key sch of None \<Rightarrow> False | Some pk \<Rightarrow> pk \<noteq> [])
      then Inl (ValueError ''Table already has a primary key'')
      else Inr (sch\<lparr>schema_columns := schema_columns sch @ [c],
                    schema_primary_key := (if primary_key c then Some (name c) else schema_primary_key sch),
                    unique_columns := (if unique c \<and> name c \<notin> set (unique_columns sch)
                                       then unique_columns sch @ [name c] else unique_columns sch)\<rparr>))"

text \<open>The schema \<open>_execute_create_table\<close> builds: \<open>add_column\<close> for every column definition.\<close>

fun add_columns :: "table_schema \<Rightarrow> column list \<Rightarrow> error + table_schema" where
  "add_columns sch [] = Inr sch"
| "add_columns sch (c # cs) =
     (case add_column sch (post_init c) of Inl e \<Rightarrow> Inl e | Inr sch' \<Rightarrow> add_columns sch' cs)"

definition build_schema :: "string \<Rightarrow> column list \<Rightarrow> error + table_schema" where
  "build_schema n cs = add_columns (empty_schema n) cs"

text \<open>
  \<open>TableSchema.validate_row\<close>: for every column, the first item of the row whose key
  matches case-insensitively; a missing or \<open>None\<close> value is replaced by the default, or
  rejected when the column is NOT NULL.
\<close>

definition row_value :: "row \<Rightarrow> string \<Rightarrow> val" where
  "row_value r col_name = (case find_ci col_name r of Some v \<Rightarrow> v | None \<Rightarrow> VNull)"

fun validate_columns :: "column list \<Rightarrow> row \<Rightarrow> row \<Rightarrow> error + row" where
  "validate_columns [] r validated = Inr validated"
| "validate_columns (col # cols) r validated =
     (let v = row_value r (name col) in
      if v = VNull \<and> default_value col = VNull \<and> not_null col
      then Inl (ValueError ''cannot be NULL'')
      else
        (let v' = (if v = VNull \<and> default_value col \<noteq> VNull then default_value col else v) in
         if v' \<noteq> VNull then
           (case validate_and_convert v' (col_type col) of
              Inl e \<Rightarrow> Inl e
            | Inr w \<Rightarrow> validate_columns cols r (dict_set validated (name col) w))
         else validate_columns cols r (dict_set validated (name col) v')))"

definition validate_row :: "table_schema \<Rightarrow> row \<Rightarrow> error + row" where
  "validate_row sch r = validate_columns (schema_columns sch) r []"

section \<open>Table storage (engine.py, TableStorage)\<close>

text \<open>
  The rows are a dictionary from row id to row; the file on disk is rewritten from this
  state after every change and is not a separate part of the state.
\<close>

record table_storage =
  schema :: table_schema
  rows :: "(int \<times> row) list"
  next_row_id :: int

definition new_table :: "table_schema \<Rightarrow> table_storage" where
  "new_table sch = \<lparr>schema = sch, rows = [], next_row_id = 1\<rparr>"

text \<open>\<open>del d[k]\<close> for a key that is present.\<close>

definition dict_del :: "('k \<times> 'v) list \<Rightarrow> 'k \<Rightarrow> ('k \<times> 'v) list" where
  "dict_del d k = filter (\<lambda>(k', v). k' \<noteq> k) d"

text \<open>
  \<open>_check_unique_constraints\<close>: \<open>exclude_id and row_id == exclude_id\<close> skips the row being
  updated (an \<open>exclude_id\<close> of \<open>None\<close> or 0 skips nothing).
\<close>

definition excluded :: "int option \<Rightarrow> int \<Rightarrow> bool" where
  "excluded exclude_id row_id = (case exclude_id of None \<Rightarrow> False | Some x \<Rightarrow> x \<noteq> 0 \<and> row_id = x)"

fun check_unique_column :: "(int \<times> row) list \<Rightarrow> string \<Rightarrow> val \<Rightarrow> int option \<Rightarrow> error + unit" where
  "check_unique_column [] col_name v exclude_id = Inr ()"
| "check_unique_column ((row_id, existing_row) # rest) col_name v exclude_id =
     (if excluded exclude_id row_id then check_unique_column rest col_name v exclude_id
      else if py_eq (dict_get existing_row col_name) v then Inl (ValueError ''Duplicate value'')
      else check_unique_column rest col_name v exclude_id)"

fun check_unique_columns :: "string list \<Rightarrow> (int \<times> row) list \<Rightarrow> row \<Rightarrow> int option \<Rightarrow> error + unit" where
  "check_unique_columns [] rs r exclude_id = Inr ()"
| "check_unique_columns (col_name # cols) rs r exclude_id =
     (let v = dict_get r col_name in
      if v = VNull then check_unique_columns cols rs r exclude_id
      else (case check_unique_column rs col_name v exclude_id of
              Inl e \<Rightarrow> Inl e
            | Inr _ \<Rightarrow> check_unique_columns cols rs r exclude_id))"

definition check_unique_constraints :: "table_storage \<Rightarrow> row \<Rightarrow> int option \<Rightarrow> error + unit" where
  "check_unique_constraints ts r exclude_id =
     check_unique_columns (unique_columns (schema ts)) (rows ts) r exclude_id"

text \<open>
  \<open>TableStorage.insert\<close>: both checks come before the first assignment, so an exception
  leaves the table as it was.  The result is the new table and the row id.
\<close>

definition storage_insert :: "table_storage \<Rightarrow> row \<Rightarrow> error + table_storage \<times> int" where
  "storage_insert ts r =
     (case validate_row (schema ts) r of
        Inl e \<Rightarrow> Inl e
      | Inr validated_row \<Rightarrow>
          (case check_unique_constraints ts validated_row None of
             Inl e \<Rightarrow> Inl e
           | Inr _ \<Rightarrow>
               (let row_id = next_row_id ts in
                Inr (ts\<lparr>next_row_id := next_row_id ts + 1,
                        rows := dict_set (rows ts) row_id validated_row\<rparr>, row_id))))"

text \<open>\<open>TableStorage.update\<close>: the merge of the updates into a copy of the current row.\<close>

fun canonical_name :: "column list \<Rightarrow> string \<Rightarrow> string option" where
  "canonical_name [] key = None"
| "canonical_name (col # cols) key =
     (if lower (name col) = lower key then Some (name col) else canonical_name cols key)"

fun merge_updates :: "column list \<Rightarrow> row \<Rightarrow> row \<Rightarrow> row" where
  "merge_updates cols current_row [] = current_row"
| "merge_updates cols current_row ((key, v) # updates) =
     (case canonical_name cols key of
        Some n \<Rightarrow> merge_updates cols (dict_set current_row n v) updates
      | None \<Rightarrow> merge_updates cols current_row updates)"

definition storage_update :: "table_storage \<Rightarrow> int \<Rightarrow> row \<Rightarrow> error + table_storage \<times> bool" where
  "storage_update ts row_id updates =
     (case map_of (rows ts) row_id of
        None \<Rightarrow> Inr (ts, False)
      | Some old_row \<Rightarrow>
          (case validate_row (schema ts) (merge_updates (schema_columns (schema ts)) old_row updates) of
             Inl e \<Rightarrow> Inl e
           | Inr validated_row \<Rightarrow>
               (case check_unique_constraints ts validated_row (Some row_id) of
                  Inl e \<Rightarrow> Inl e
                | Inr _ \<Rightarrow> Inr (ts\<lparr>rows := dict_set (rows ts) row_id validated_row\<rparr>, True))))"

definition storage_delete :: "table_storage \<Rightarrow> int \<Rightarrow> table_storage \<times> bool" where
  "storage_delete ts row_id =
     (case map_of (rows ts) row_id of
        None \<Rightarrow> (ts, False)
      | Some _ \<Rightarrow> (ts\<lparr>rows := dict_del (rows ts) row_id\<rparr>, True))"

definition storage_truncate :: "table_storage \<Rightarrow> table_storage" where
  "storage_truncate ts = ts\<lparr>rows := [], next_row_id := 1\<rparr>"

text \<open>
  A caller's sequence of operations on one table.  An operation that raises leaves the
  table unchanged and the sequence goes on; the row ids that \<open>insert\<close> returned are
  collected in order.
\<close>

datatype storage_op = Insert row | Update int row | Delete int

fun apply_op :: "table_storage \<times> int list \<Rightarrow> storage_op \<Rightarrow> table_storage \<times> int list" where
  "apply_op (ts, ids) (Insert r) =
     (case storage_insert ts r of Inl e \<Rightarrow> (ts, ids) | Inr (ts', row_id) \<Rightarrow> (ts', ids @ [row_id]))"
| "apply_op (ts, ids) (Update row_id updates) =
     (case storage_update ts row_id updates of Inl e \<Rightarrow> (ts, ids) | Inr (ts', _) \<Rightarrow> (ts', ids))"
| "apply_op (ts, ids) (Delete row_id) = (fst (storage_delete ts row_id), ids)"

definition run_ops :: "table_storage \<Rightarrow> storage_op list \<Rightarrow> table_storage \<times> int list" where
  "run_ops ts ops = foldl apply_op (ts, []) ops"

section \<open>B-tree index (btree.py)\<close>

text \<open>
  \<open>BTreeIndex\<close> keeps its nodes in a dictionary from node ids to \<open>BTreeNode\<close> objects, and a
  node lists the ids of its children.  A node id is created once, by \<open>_create_node\<close>, and
  is stored in exactly one place (the children list of one node, or \<open>root_id\<close>), so the
  dictionary always describes a tree and no node is shared.  The model therefore holds the
  children themselves in the node.  A node carries its keys, one list of row ids per key
  (\<open>values\<close>), its children and the leaf flag.  Writing the index to its JSON file
  (\<open>_save\<close>) is outside the model.
\<close>

datatype btree = Node (keys: "val list") (vals: "int list list") (children: "btree list") (is_leaf: bool)

text \<open>The index: the minimum degree \<open>order\<close>, the \<open>unique\<close> flag and the root node.\<close>

record btree_index =
  order :: nat
  unique_index :: bool
  root :: btree

definition new_index :: "nat \<Rightarrow> bool \<Rightarrow> btree_index" where
  "new_index t uniq = \<lparr>order = t, unique_index = uniq, root = Node [] [] [] True\<rparr>"

text \<open>
  \<open>_compare_keys\<close>: \<open>None\<close> is below everything else; other keys are compared with \<open><\<close>
  and \<open>>\<close>, and when Python refuses the comparison (\<open>TypeError\<close>, a number against a
  string) their \<open>str()\<close> renderings are compared instead.
\<close>

definition str_compare :: "val \<Rightarrow> val \<Rightarrow> int" where
  "str_compare k1 k2 =
     (if py_str k1 < py_str k2 then - 1 else if py_str k1 > py_str k2 then 1 else 0)"

definition compare_keys :: "val \<Rightarrow> val \<Rightarrow> int" where
  "compare_keys k1 k2 =
     (if k1 = VNull \<and> k2 = VNull then 0
      else if k1 = VNull then - 1
      else if k2 = VNull then 1
      else (case py_lt k1 k2 of
              Inl e \<Rightarrow> str_compare k1 k2
            | Inr lt \<Rightarrow>
                if lt then - 1
                else (case py_gt k1 k2 of
                        Inl e \<Rightarrow> str_compare k1 k2
                      | Inr gt \<Rightarrow> if gt then 1 else 0)))"

text \<open>\<open>_is_full\<close>: a node is full with \<open>2 * order - 1\<close> keys.\<close>

definition full :: "nat \<Rightarrow> btree \<Rightarrow> bool" where
  "full t node = (int (length (keys node)) = 2 * int t - 1)"

text \<open>\<open>xs.insert(i, x)\<close> for \<open>0 \<le> i\<close>.\<close>

definition insert_at :: "nat \<Rightarrow> 'a \<Rightarrow> 'a list \<Rightarrow> 'a list" where
  "insert_at i x xs = take i xs @ x # drop i xs"

text \<open>
  The scans over the keys of a node.  \<open>search_pos\<close> is the loop of \<open>_search_node\<close> and
  \<open>_delete_from_node\<close>: from the left, past every key below the searched one.
  \<open>insert_pos\<close> is the loop of \<open>_insert_non_full\<close>: from the right, past every key above
  the inserted one; the result is the source's \<open>i + 1\<close>, the number of keys not passed.
  \<open>found_at\<close> is the test \<open>i >= 0 and compare(key, keys[i]) == 0\<close> after that loop.
\<close>

definition search_pos :: "val \<Rightarrow> val list \<Rightarrow> nat" where
  "search_pos key ks = length (takeWhile (\<lambda>k. compare_keys key k > 0) ks)"

definition insert_pos :: "val \<Rightarrow> val list \<Rightarrow> nat" where
  "insert_pos key ks = length (dropWhile (\<lambda>k. compare_keys key k < 0) (rev ks))"

definition found_at :: "val \<Rightarrow> val list \<Rightarrow> nat \<Rightarrow> bool" where
  "found_at key ks pos = (0 < pos \<and> compare_keys key (ks ! (pos - 1)) = 0)"

text \<open>
  The key is already in the node, at position \<open>i\<close>: a unique index refuses a row id that is
  not in the key's list, any index appends a row id that is not there, and a row id that is
  there is left alone.
\<close>

definition add_row_id :: "bool \<Rightarrow> int list list \<Rightarrow> nat \<Rightarrow> int \<Rightarrow> error option \<times> int list list" where
  "add_row_id uniq vs i row_id =
     (if length vs \<le> i then (Some IndexError, vs)
      else if uniq \<and> row_id \<notin> set (vs ! i) then (Some (ValueError ''Duplicate key''), vs)
      else if row_id \<notin> set (vs ! i) then (None, vs[i := vs ! i @ [row_id]])
      else (None, vs))"

text \<open>
  \<open>_split_child\<close>.  The new node takes the keys, values and children from position
  \<open>order\<close> on, the child keeps the rest, the new node enters the parent's children, and the
  last key and value that the child kept move up into the parent.  The two \<open>pop()\<close> calls
  raise \<open>IndexError\<close> on an empty list; the mutations made before the raise remain, so the
  result is the error (if any) together with the parent as the call leaves it.
\<close>

definition split_child :: "nat \<Rightarrow> btree \<Rightarrow> nat \<Rightarrow> error option \<times> btree" where
  "split_child t parent child_index =
     (if length (children parent) \<le> child_index then (Some IndexError, parent)
      else
        (let child = children parent ! child_index;
             new_node = Node (drop t (keys child)) (drop t (vals child))
                          (if is_leaf child then [] else drop t (children child)) (is_leaf child);
             ckeys = take t (keys child);
             cvals = take t (vals child);
             cchildren = (if is_leaf child then children child else take t (children child));
             pchildren = (\<lambda>c. insert_at (child_index + 1) new_node ((children parent)[child_index := c]))
         in if ckeys = [] then
              (Some IndexError,
               Node (keys parent) (vals parent) (pchildren (Node ckeys cvals cchildren (is_leaf child))) (is_leaf parent))
            else if cvals = [] then
              (Some IndexError,
               Node (keys parent) (vals parent) (pchildren (Node (butlast ckeys) cvals cchildren (is_leaf child))) (is_leaf parent))
            else
              (None,
               Node (insert_at child_index (last ckeys) (keys parent))
                    (insert_at child_index (last cvals) (vals parent))
                    (pchildren (Node (butlast ckeys) (butlast cvals) cchildren (is_leaf child)))
                    (is_leaf parent))))"

text \<open>A child reached from a node, before or after a split, is smaller than the node.\<close>

lemma size_nth_less: "i < length cs \<Longrightarrow> size (cs ! i) < Suc (size_list size cs)"
proof (induction cs arbitrary: i)
  case Nil
  then show ?case by simp
next
  case (Cons c cs)
  show ?case
  proof (cases i)
    case 0
    then show ?thesis by simp
  next
    case (Suc j)
    with Cons.prems have "j < length cs" by simp
    from Cons.IH[OF this] Suc show ?thesis by simp
  qed
qed

lemma size_list_take: "size_list f (take n xs) \<le> size_list f xs"
  by (induction xs arbitrary: n) (auto simp: take_Cons split: nat.splits)

lemma size_list_drop: "size_list f (drop n xs) \<le> size_list f xs"
proof (induction xs arbitrary: n)
  case Nil
  then show ?case by simp
next
  case (Cons x xs)
  show ?case
  proof (cases n)
    case 0
    then show ?thesis by simp
  next
    case (Suc m)
    from Cons.IH[of m] Suc show ?thesis by simp
  qed
qed

lemma size_mem_less: "c \<in> set cs \<Longrightarrow> size c < Suc (size_list size cs)"
  by (metis in_set_conv_nth size_nth_less)

lemma split_child_size:
  assumes "split_child t parent i = (e, parent')" and "c \<in> set (children parent')"
  shows "size c < size parent"
proof (cases "length (children parent) \<le> i")
  case True
  with assms show ?thesis
    by (cases parent) (auto simp: split_child_def dest: size_mem_less)
next
  case False
  define child where "child = children parent ! i"
  have sc: "size child < size parent"
    using False by (cases parent) (auto simp: child_def size_nth_less)
  have out: "c' \<in> set (children parent) \<Longrightarrow> size c' < size parent" for c'
    by (cases parent) (auto dest: size_mem_less)
  from assms False have "c \<in> set (children parent) \<or> size c \<le> size child"
    apply (cases child)
    apply (auto simp: split_child_def Let_def insert_at_def child_def[symmetric] size_list_take size_list_drop
                split: if_splits dest!: in_set_takeD in_set_dropD set_update_subset_insert[THEN subsetD])
    done
  with sc out show ?thesis by auto
qed

lemma split_child_size_nth:
  "(e, node') = split_child t node pos \<Longrightarrow> i < length (children node') \<Longrightarrow>
   size (children node' ! i) < size node"
  using split_child_size[of t node pos e node' "children node' ! i"] by simp

text \<open>
  \<open>_insert_non_full\<close>.  The source tests for an equal key in the leaf branch and in the
  inner branch with the same code; the model tests once, before the branch.  An error
  leaves the node as the source has mutated it up to the raise.
\<close>

function insert_non_full :: "nat \<Rightarrow> bool \<Rightarrow> btree \<Rightarrow> val \<Rightarrow> int \<Rightarrow> error option \<times> btree" where
  "insert_non_full t uniq node key row_id =
     (let pos = insert_pos key (keys node) in
      if found_at key (keys node) pos then
        (case add_row_id uniq (vals node) (pos - 1) row_id of
           (e, vs) \<Rightarrow> (e, Node (keys node) vs (children node) (is_leaf node)))
      else if is_leaf node then
        (None, Node (insert_at pos key (keys node)) (insert_at pos [row_id] (vals node))
                 (children node) (is_leaf node))
      else if length (children node) \<le> pos then (Some IndexError, node)
      else if full t (children node ! pos) then
        (case split_child t node pos of
           (Some e, node') \<Rightarrow> (Some e, node')
         | (None, node') \<Rightarrow>
             if compare_keys key (keys node' ! pos) = 0 then
               (case add_row_id uniq (vals node') pos row_id of
                  (e, vs) \<Rightarrow> (e, Node (keys node') vs (children node') (is_leaf node')))
             else
               (let i = (if compare_keys key (keys node' ! pos) > 0 then pos + 1 else pos) in
                if length (children node') \<le> i then (Some IndexError, node')
                else (case insert_non_full t uniq (children node' ! i) key row_id of
                        (e, c) \<Rightarrow> (e, Node (keys node') (vals node') ((children node')[i := c]) (is_leaf node')))))
      else
        (case insert_non_full t uniq (children node ! pos) key row_id of
           (e, c) \<Rightarrow> (e, Node (keys node) (vals node) ((children node)[pos := c]) (is_leaf node))))"
  by pat_completeness auto
termination
  apply (relation "measure (\<lambda>(t, uniq, node, key, row_id). size node)")
    apply simp
   apply (auto split: if_splits intro: split_child_size_nth)[1]
  subgoal for t uniq node key row_id pos
    by (cases node) (auto simp: size_nth_less)
  done

declare insert_non_full.simps [simp del]

text \<open>\<open>insert\<close>: a full root is first put under a new root and split.\<close>

definition btree_insert :: "btree_index \<Rightarrow> val \<Rightarrow> int \<Rightarrow> error option \<times> btree_index" where
  "btree_insert idx key row_id =
     (if full (order idx) (root idx) then
        (case split_child (order idx) (Node [] [] [root idx] False) 0 of
           (Some e, new_root) \<Rightarrow> (Some e, idx\<lparr>root := new_root\<rparr>)
         | (None, new_root) \<Rightarrow>
             (case insert_non_full (order idx) (unique_index idx) new_root key row_id of
                (e, r) \<Rightarrow> (e, idx\<lparr>root := r\<rparr>)))
      else
        (case insert_non_full (order idx) (unique_index idx) (root idx) key row_id of
           (e, r) \<Rightarrow> (e, idx\<lparr>root := r\<rparr>)))"

text \<open>\<open>search\<close> and \<open>_search_node\<close>: the row ids stored under a key.\<close>

function search_node :: "btree \<Rightarrow> val \<Rightarrow> error + int list" where
  "search_node node key =
     (let i = search_pos key (keys node) in
      if i < length (keys node) \<and> compare_keys key (keys node ! i) = 0 then
        (if length (vals node) \<le> i then Inl IndexError else Inr (vals node ! i))
      else if is_leaf node then Inr []
      else if length (children node) \<le> i then Inl IndexError
      else search_node (children node ! i) key)"
  by pat_completeness auto
termination
  apply (relation "measure (\<lambda>(node, key). size node)")
   apply simp
  subgoal for node key
    by (cases node) (auto simp: size_nth_less)
  done

declare search_node.simps [simp del]

definition btree_search :: "btree_index \<Rightarrow> val \<Rightarrow> error + int list" where
  "btree_search idx key = search_node (root idx) key"

text \<open>
  \<open>delete\<close> and \<open>_delete_from_node\<close>: the row id leaves the key's list; the key stays
  in the node, also with an empty list.
\<close>

function delete_node :: "btree \<Rightarrow> val \<Rightarrow> int \<Rightarrow> error + btree \<times> bool" where
  "delete_node node key row_id =
     (let i = search_pos key (keys node) in
      if i < length (keys node) \<and> compare_keys key (keys node ! i) = 0 then
        (if length (vals node) \<le> i then Inl IndexError
         else if row_id \<in> set (vals node ! i) then
           Inr (Node (keys node) ((vals node)[i := remove1 row_id (vals node ! i)])
                  (children node) (is_leaf node), True)
         else Inr (node, False))
      else if is_leaf node then Inr (node, False)
      else if length (children node) \<le> i then Inl IndexError
      else (case delete_node (children node ! i) key row_id of
              Inl e \<Rightarrow> Inl e
            | Inr (c, b) \<Rightarrow>
                Inr (Node (keys node) (vals node) ((children node)[i := c]) (is_leaf node), b)))"
  by pat_completeness auto
termination
  apply (relation "measure (\<lambda>(node, key, row_id). size node)")
   apply simp
  subgoal for node key row_id
    by (cases node) (auto simp: size_nth_less)
  done

declare delete_node.simps [simp del]

definition btree_delete :: "btree_index \<Rightarrow> val \<Rightarrow> int \<Rightarrow> error + btree_index \<times> bool" where
  "btree_delete idx key row_id =
     (case delete_node (root idx) key row_id of
        Inl e \<Rightarrow> Inl e
      | Inr (r, b) \<Rightarrow> Inr (idx\<lparr>root := r\<rparr>, b))"

text \<open>
  A caller's sequence of operations on one index.  An insert that raises leaves the index
  as the raise leaves it, and the sequence goes on.
\<close>

datatype index_op = IndexInsert val int | IndexDelete val int

fun index_step :: "btree_index \<Rightarrow> index_op \<Rightarrow> btree_index" where
  "index_step idx (IndexInsert key row_id) = snd (btree_insert idx key row_id)"
| "index_step idx (IndexDelete key row_id) =
     (case btree_delete idx key row_id of Inl e \<Rightarrow> idx | Inr (idx', b) \<Rightarrow> idx')"

definition index_run :: "btree_index \<Rightarrow> index_op list \<Rightarrow> btree_index" where
  "index_run idx ops = foldl index_step idx ops"

text \<open>
  The key-to-row-ids entries of an index, in the order of an in-order walk: the entries of
  the children alternate with the node's own entries.
\<close>

fun join :: "'a list list \<Rightarrow> 'a list \<Rightarrow> 'a list" where
  "join [] es = es"
| "join (l # ls) [] = l @ concat ls"
| "join (l # ls) (e # es) = l @ e # join ls es"

fun inorder :: "btree \<Rightarrow> (val \<times> int list) list" where
  "inorder (Node ks vs cs leaf) = (if leaf then zip ks vs else join (map inorder cs) (zip ks vs))"

definition entries :: "btree_index \<Rightarrow> (val \<times> int list) list" where
  "entries idx = inorder (root idx)"

section \<open>INSERT (executor.py, \<open>_execute_insert\<close>)\<close>

text \<open>
  An INSERT statement: the table, the optional column list and the value rows.  The parser
  produces literals only; the executor unwraps them, so a value row is a list of values.
\<close>

record insert_statement =
  ins_table :: string
  ins_columns :: "string list option"
  ins_values :: "val list list"

text \<open>The indexes of one table: a dictionary from column names to indexes.\<close>

type_synonym table_indexes = "(string \<times> btree_index) list"

text \<open>
  The row dictionary of one value row: \<open>if stmt.columns:\<close> tests the column list, which
  may be \<open>None\<close> or empty; then the schema's column names are used.
\<close>

definition make_row :: "string list option \<Rightarrow> table_schema \<Rightarrow> val list \<Rightarrow> error + row" where
  "make_row cols sch value_row =
     (case cols of
        Some (c # cs) \<Rightarrow>
          if length (c # cs) \<noteq> length value_row then Inl (ValueError ''Column count does not match value count'')
          else Inr (dict_update [] (zip (c # cs) value_row))
      | _ \<Rightarrow>
          (let col_names = map name (schema_columns sch) in
           if length col_names \<noteq> length value_row then Inl (ValueError ''Value count does not match table columns'')
           else Inr (dict_update [] (zip col_names value_row))))"

text \<open>
  The loop over the table's indexes after a row was stored: the index of a column receives
  the value of the row as the statement gave it (\<open>row.get(col_name)\<close>, not the validated
  value), unless that value is \<open>None\<close>.  A raise leaves the later indexes untouched.
\<close>

fun update_indexes :: "table_indexes \<Rightarrow> row \<Rightarrow> int \<Rightarrow> error option \<times> table_indexes" where
  "update_indexes [] r row_id = (None, [])"
| "update_indexes ((col_name, index) # rest) r row_id =
     (let v = dict_get r col_name in
      if v \<noteq> VNull then
        (case btree_insert index v row_id of
           (Some e, index') \<Rightarrow> (Some e, (col_name, index') # rest)
         | (None, index') \<Rightarrow>
             (case update_indexes rest r row_id of (e, rest') \<Rightarrow> (e, (col_name, index') # rest')))
      else (case update_indexes rest r row_id of (e, rest') \<Rightarrow> (e, (col_name, index) # rest')))"

text \<open>
  The loop over the value rows.  A raise ends the statement; the table, the indexes and the
  count are as the raise leaves them: nothing undoes the rows stored before.
\<close>

fun insert_rows :: "string list option \<Rightarrow> table_storage \<times> table_indexes \<times> nat \<Rightarrow> val list list
    \<Rightarrow> error option \<times> table_storage \<times> table_indexes \<times> nat" where
  "insert_rows cols st [] = (None, st)"
| "insert_rows cols (ts, indexes, inserted) (value_row # remaining) =
     (case make_row cols (schema ts) value_row of
        Inl e \<Rightarrow> (Some e, ts, indexes, inserted)
      | Inr r \<Rightarrow>
          (case storage_insert ts r of
             Inl e \<Rightarrow> (Some e, ts, indexes, inserted)
           | Inr (ts', row_id) \<Rightarrow>
               (case update_indexes indexes r row_id of
                  (Some e, indexes') \<Rightarrow> (Some e, ts', indexes', inserted)
                | (None, indexes') \<Rightarrow> insert_rows cols (ts', indexes', inserted + 1) remaining)))"

text \<open>
  The part of the engine an INSERT reads and writes: the tables by lower-cased name and the
  indexes of each table.
\<close>

record database =
  tables :: "(string \<times> table_storage) list"
  indexes :: "(string \<times> table_indexes) list"

definition execute_insert :: "database \<Rightarrow> insert_statement \<Rightarrow> error option \<times> database \<times> nat" where
  "execute_insert db stmt =
     (case map_of (tables db) (lower (ins_table stmt)) of
        None \<Rightarrow> (Some (ValueError ''Table does not exist''), db, 0)
      | Some ts \<Rightarrow>
          (let idxs = (case map_of (indexes db) (lower (ins_table stmt)) of Some i \<Rightarrow> i | None \<Rightarrow> []) in
           case insert_rows (ins_columns stmt) (ts, idxs, 0) (ins_values stmt) of
             (e, ts', idxs', inserted) \<Rightarrow>
               (e,
                db\<lparr>tables := dict_set (tables db) (lower (ins_table stmt)) ts',
                   indexes := (case map_of (indexes db) (lower (ins_table stmt)) of
                                 Some i \<Rightarrow> dict_set (indexes db) (lower (ins_table stmt)) idxs'
                               | None \<Rightarrow> indexes db)\<rparr>,
                inserted)))"

section \<open>Notions used to state the properties\<close>

subsection \<open>Aggregates and ORDER BY\<close>

text \<open>No two items of a list are equal under Python's \<open>==\<close>.\<close>

fun py_distinct :: "val list \<Rightarrow> bool" where
  "py_distinct [] = True"
| "py_distinct (v # vs) = (\<not> py_in v vs \<and> py_distinct vs)"

text \<open>
  The comparison of two key values inside \<open>compare\<close>, for one direction; the value of an
  ORDER BY key on a row; and ``\<open>compare(a, b) <= 0\<close>'': \<open>a\<close> may stand before \<open>b\<close>.
\<close>

definition vcmp :: "order_direction \<Rightarrow> val \<Rightarrow> val \<Rightarrow> error + int" where
  "vcmp d val_a val_b =
     (if val_a = VNull \<and> val_b = VNull then Inr 0
      else if val_a = VNull then Inr (if d = ASC then - 1 else 1)
      else if val_b = VNull then Inr (if d = ASC then 1 else - 1)
      else (case py_lt val_a val_b of
              Inl e \<Rightarrow> Inl e
            | Inr lt \<Rightarrow>
                if lt then Inr (if d = ASC then - 1 else 1)
                else (case py_gt val_a val_b of
                        Inl e \<Rightarrow> Inl e
                      | Inr gt \<Rightarrow> if gt then Inr (if d = ASC then 1 else - 1) else Inr 0)))"

definition sort_key :: "order_by_item \<Rightarrow> envelope \<Rightarrow> error + val" where
  "sort_key item rd = evaluate (order_row rd) [] (ob_expr item)"

definition ordered :: "order_by_item list \<Rightarrow> envelope \<Rightarrow> envelope \<Rightarrow> bool" where
  "ordered ob a b = (\<exists>c. compare ob (order_row a) (order_row b) = Inr c \<and> c \<le> 0)"

subsection \<open>Table storage\<close>

text \<open>
  Starting from the table \<open>ts0\<close>: the inserts so far received the consecutive ids from
  \<open>next_row_id ts0\<close> on, the counter is past all of them, and every stored row has an id of
  \<open>ts0\<close> or one of them.
\<close>

definition ids_inv :: "table_storage \<Rightarrow> table_storage \<times> int list \<Rightarrow> bool" where
  "ids_inv ts0 st = (case st of (ts, ids) \<Rightarrow>
     ids = map (\<lambda>k. next_row_id ts0 + int k) [0..<length ids]
     \<and> next_row_id ts = next_row_id ts0 + int (length ids)
     \<and> fst ` set (rows ts) \<subseteq> fst ` set (rows ts0) \<union> set ids)"

text \<open>Every stored row is a result of \<open>validate_row\<close> for the table's schema.\<close>

definition validated_rows :: "table_schema \<Rightarrow> table_storage \<times> int list \<Rightarrow> bool" where
  "validated_rows sch st = (schema (fst st) = sch \<and>
     (\<forall>(rid, r)\<in>set (rows (fst st)). \<exists>r0. validate_row sch r0 = Inr r))"

subsection \<open>B-tree index\<close>

text \<open>
  The shape the operations maintain: as many row-id lists as keys, no children in a leaf,
  one child more than keys in an inner node.
\<close>

fun well_shaped :: "btree \<Rightarrow> bool" where
  "well_shaped (Node ks vs cs leaf) =
     (length vs = length ks \<and> (if leaf then cs = [] else length cs = Suc (length ks)) \<and> (\<forall>c\<in>set cs. well_shaped c))"

text \<open>
  Keys are \<^emph>\<open>like-typed\<close> when all of them are numbers (integers and booleans) or all of
  them are strings.  On like-typed keys \<open>_compare_keys\<close> is the order of \<open>rank\<close>: the
  number itself, or the string.
\<close>

fun rank :: "val \<Rightarrow> int \<times> string" where
  "rank (VStr s) = (0, s)"
| "rank k = (case num_of k of Some i \<Rightarrow> (i, []) | None \<Rightarrow> (0, []))"

definition like_typed :: "val set \<Rightarrow> bool" where
  "like_typed S = ((\<forall>k\<in>S. num_of k \<noteq> None) \<or> (\<forall>k\<in>S. \<exists>s. k = VStr s))"

text \<open>
  Insertion into a sorted list of entries: what an insert into the index is to amount to on
  its entries.
\<close>

fun ins_entry :: "bool \<Rightarrow> val \<Rightarrow> int \<Rightarrow> (val \<times> int list) list \<Rightarrow> error option \<times> (val \<times> int list) list" where
  "ins_entry u key r [] = (None, [(key, [r])])"
| "ins_entry u key r ((k, rs) # es) =
    (if rank key < rank k then (None, (key, [r]) # (k, rs) # es)
     else if rank key = rank k then
       (if u \<and> r \<notin> set rs then (Some (ValueError ''Duplicate key''), (k, rs) # es)
        else if r \<notin> set rs then (None, (k, rs @ [r]) # es)
        else (None, (k, rs) # es))
     else (case ins_entry u key r es of (e, es') \<Rightarrow> (e, (k, rs) # es')))"

text \<open>
  \<open>pairs ls es\<close> is \<open>join ls es\<close> for as many lists as entries; the entries are sorted when
  their keys' ranks strictly increase.
\<close>

definition pairs :: "'a list list \<Rightarrow> 'a list \<Rightarrow> 'a list" where
  "pairs ls es = concat (map2 (\<lambda>l e. l @ [e]) ls es)"

definition sorted_entries :: "(val \<times> int list) list \<Rightarrow> bool" where
  "sorted_entries es = sorted_wrt (<) (map (\<lambda>e. rank (fst e)) es)"

text \<open>The same keys in the same order, with row-id lists that did not grow.\<close>

definition shrunk :: "(val \<times> int list) list \<Rightarrow> (val \<times> int list) list \<Rightarrow> bool" where
  "shrunk es' es = list_all2 (\<lambda>(k', rs') (k, rs). k' = k \<and> length rs' \<le> length rs) es' es"

text \<open>The key of an operation, and the invariant of an index whose keys all lie in \<open>S\<close>.\<close>

fun op_key :: "index_op \<Rightarrow> val" where
  "op_key (IndexInsert key row_id) = key"
| "op_key (IndexDelete key row_id) = key"

definition index_inv :: "val set \<Rightarrow> btree_index \<Rightarrow> bool" where
  "index_inv S idx = (well_shaped (root idx) \<and> sorted_entries (entries idx) \<and> fst ` set (entries idx) \<subseteq> S)"

text \<open>No key of the tree has more than one row id.\<close>

fun short_lists :: "btree \<Rightarrow> bool" where
  "short_lists (Node ks vs cs l) = ((\<forall>rs\<in>set vs. length rs \<le> 1) \<and> (\<forall>c\<in>set cs. short_lists c))"

subsection \<open>INSERT\<close>

text \<open>
  The (key, row id) pairs of a list of entries and of an index; a table whose row-id counter
  is past every stored id; indexes that keep every pair of the old ones; indexes of the
  maintained shape; and the two combined for the state of the loop over the value rows.
\<close>

definition slot_pairs :: "(val \<times> int list) list \<Rightarrow> (val \<times> int) set" where
  "slot_pairs es = {(k, row_id). \<exists>rs. (k, rs) \<in> set es \<and> row_id \<in> set rs}"

definition index_pairs :: "btree_index \<Rightarrow> (val \<times> int) set" where
  "index_pairs idx = slot_pairs (entries idx)"

definition fresh_ids :: "table_storage \<Rightarrow> bool" where
  "fresh_ids ts = (\<forall>row_id\<in>fst ` set (rows ts). row_id < next_row_id ts)"

definition indexes_kept :: "table_indexes \<Rightarrow> table_indexes \<Rightarrow> bool" where
  "indexes_kept old new =
     list_all2 (\<lambda>(c, i) (c', i'). c = c' \<and> index_pairs i \<subseteq> index_pairs i') old new"

definition indexes_well_shaped :: "table_indexes \<Rightarrow> bool" where
  "indexes_well_shaped idxs = (\<forall>(c, i)\<in>set idxs. well_shaped (root i))"

definition state_inv :: "table_storage \<times> table_indexes \<times> nat \<Rightarrow> bool" where
  "state_inv st = (case st of (ts, idxs, n) \<Rightarrow> fresh_ids ts \<and> indexes_well_shaped idxs)"

definition kept :: "table_storage \<times> table_indexes \<times> nat \<Rightarrow> table_storage \<times> table_indexes \<times> nat \<Rightarrow> bool" where
  "kept st st' = (case (st, st') of ((ts, idxs, n), (ts', idxs', n')) \<Rightarrow>
     (\<exists>new. rows ts' = rows ts @ new) \<and> indexes_kept idxs idxs')"

section \<open>Example data\<close>

text \<open>
  The table of
  \<open>CREATE TABLE users (id INTEGER PRIMARY KEY, name VARCHAR(10) NOT NULL, active BOOLEAN DEFAULT TRUE)\<close>:
  the column definitions as the parser produces them, and the schema that
  \<open>build_schema\<close> makes of them.
\<close>

definition users_columns :: "column list" where
  "users_columns =
     [\<lparr>name = ''id'', col_type = \<lparr>dtype = INTEGER, size_limit = None\<rparr>,
       primary_key = True, unique = False, not_null = False, default_value = VNull\<rparr>,
      \<lparr>name = ''name'', col_type = \<lparr>dtype = VARCHAR, size_limit = Some 10\<rparr>,
       primary_key = False, unique = False, not_null = True, default_value = VNull\<rparr>,
      \<lparr>name = ''active'', col_type = \<lparr>dtype = BOOLEAN, size_limit = None\<rparr>,
       primary_key = False, unique = False, not_null = False, default_value = VBool True\<rparr>]"

definition users_schema :: table_schema where
  "users_schema =
     \<lparr>table_name = ''users'', schema_columns = map post_init users_columns,
      schema_primary_key = Some ''id'', unique_columns = [''id'']\<rparr>"

text \<open>
  Operations on that table: two inserts (the second with an explicit NULL for the column
  with a default), a delete, an insert that violates the primary key, a third successful
  insert, and an update that sets the column with a default to NULL.
\<close>

definition users_ops :: "storage_op list" where
  "users_ops =
     [Insert [(''id'', VInt 1), (''name'', VStr ''ann'')],
      Insert [(''id'', VInt 2), (''name'', VStr ''bob''), (''active'', VNull)],
      Delete 1,
      Insert [(''id'', VInt 2), (''name'', VStr ''eve'')],
      Insert [(''id'', VInt 3), (''name'', VStr ''cy''), (''active'', VBool False)],
      Update 2 [(''active'', VNull)]]"

text \<open>
  A database with the empty table and an index on its primary key, and a four-row INSERT
  whose third row repeats the primary key of the first.
\<close>

definition users_db :: database where
  "users_db =
     \<lparr>tables = [(''users'', new_table users_schema)],
      indexes = [(''users'', [(''id'', new_index 2 True)])]\<rparr>"

definition users_insert :: insert_statement where
  "users_insert =
     \<lparr>ins_table = ''users'', ins_columns = None,
      ins_values = [[VInt 1, VStr ''ann'', VBool True], [VInt 2, VStr ''bob'', VNull],
                    [VInt 1, VStr ''cy'', VNull], [VInt 4, VStr ''dan'', VNull]]\<rparr>"

text \<open>
  Rows of a table \<open>t\<close> with one column \<open>x\<close>, as the SELECT stages see them, and the pieces
  of queries over them.
\<close>

definition x_row :: "val \<Rightarrow> envelope" where
  "x_row v = [(''t'', Tbl [(''x'', v)])]"

definition x_rows :: "envelope list" where
  "x_rows = [x_row (VInt 3), x_row VNull, x_row (VInt 4), x_row (VInt 3)]"

definition x_col :: expr where
  "x_col = ColumnRef ''x'' None None"

text \<open>Operations on an index of minimum degree 2 with integer keys; the root splits.\<close>

definition int_key_ops :: "index_op list" where
  "int_key_ops =
     [IndexInsert (VInt 5) 105, IndexInsert (VInt 3) 103, IndexInsert (VInt 8) 108,
      IndexInsert (VInt 1) 101, IndexDelete (VInt 8) 108, IndexInsert (VInt 9) 109]"

text \<open>
  Operations with keys of both kinds, as an INTEGER column's index receives them from
  \<open>INSERT ... VALUES (10), ('15'), (2)\<close>: the index is given the values of the statement,
  not the validated ones.
\<close>

definition mixed_key_ops :: "index_op list" where
  "mixed_key_ops = [IndexInsert (VInt 10) 1, IndexInsert (VStr ''15'') 2, IndexInsert (VInt 2) 3]"

section \<open>Helper facts: values and aggregates\<close>

lemma py_eq_refl: "py_eq v v"
  by (cases v) auto

lemma py_eq_sym: "py_eq a b = py_eq b a"
  by (cases a; cases b) auto

lemma py_in_append: "py_in v (xs @ ys) = (py_in v xs \<or> py_in v ys)"
  by (simp add: py_in_def list_ex_iff) blast

lemma py_in_single: "py_in v [w] = py_eq v w"
  by (simp add: py_in_def)

lemma py_in_self: "v \<in> set vs \<Longrightarrow> py_in v vs"
  by (auto simp: py_in_def list_ex_iff intro: py_eq_refl)

lemma py_distinct_snoc:
  "py_distinct (xs @ [v]) = (py_distinct xs \<and> \<not> py_in v xs)"
proof (induction xs)
  case Nil
  show ?case by (simp add: py_in_def)
next
  case (Cons x xs)
  have "py_in x [v] = py_in v [x]"
    by (simp add: py_in_def py_eq_sym)
  then show ?case
    using Cons by (auto simp: py_in_append py_in_def)
qed

lemma set_list_subset: "set (set_list seen vs) \<subseteq> set seen \<union> set vs"
  by (induction seen vs rule: set_list.induct) auto

lemma set_list_keeps: "py_in v seen \<Longrightarrow> py_in v (set_list seen vs)"
  by (induction seen vs rule: set_list.induct) (auto simp: py_in_append)

lemma set_list_covers: "v \<in> set vs \<Longrightarrow> py_in v (set_list seen vs)"
proof (induction seen vs rule: set_list.induct)
  case (1 seen)
  then show ?case by simp
next
  case (2 seen w ws)
  show ?case
  proof (cases "v = w")
    case True
    then show ?thesis
      by (auto intro!: set_list_keeps simp: py_in_append py_in_single py_eq_refl)
  next
    case False
    with 2 show ?thesis by auto
  qed
qed

lemma set_list_distinct: "py_distinct seen \<Longrightarrow> py_distinct (set_list seen vs)"
  by (induction seen vs rule: set_list.induct) (auto simp: py_distinct_snoc)

lemma collect_single:
  assumes "e \<noteq> Star"
    and "list_all2 (\<lambda>rd v. evaluate (flatten_row rd) rd e = Inr v) rws vs"
  shows "collect_values [e] rws = Inr (filter (\<lambda>v. v \<noteq> VNull) vs)"
  using assms(2) assms(1)
  by (induction rws vs rule: list_all2_induct) auto

lemma py_sum_numeric:
  "\<forall>v\<in>set vs. num_of v \<noteq> None \<Longrightarrow>
   py_sum (VInt a) vs = Inr (VInt (a + sum_list (map (the \<circ> num_of) vs)))"
proof (induction vs arbitrary: a)
  case Nil
  then show ?case by simp
next
  case (Cons v vs)
  then obtain i where i: "num_of v = Some i" by auto
  then have "py_add (VInt a) v = Inr (VInt (a + i))"
    by (cases v) auto
  with Cons i show ?case by (simp add: add.assoc)
qed

section \<open>Helper facts: ORDER BY\<close>

lemma compare_Cons:
  "compare (item # items) ra rb =
     (case evaluate ra [] (ob_expr item) of
        Inl e \<Rightarrow> Inl e
      | Inr va \<Rightarrow>
          (case evaluate rb [] (ob_expr item) of
             Inl e \<Rightarrow> Inl e
           | Inr vb \<Rightarrow>
               (case vcmp (direction item) va vb of
                  Inl e \<Rightarrow> Inl e
                | Inr c \<Rightarrow> if c = 0 then compare items ra rb else Inr c)))"
  by (auto simp: vcmp_def split: sum.splits)

lemma vcmp_range: "vcmp d a b = Inr c \<Longrightarrow> c = - 1 \<or> c = 0 \<or> c = 1"
  by (auto simp: vcmp_def split: sum.splits if_splits)

lemma vcmp_antisym: "vcmp d a b = Inr c \<Longrightarrow> vcmp d b a = Inr (- c)"
  by (cases a; cases b) (auto simp: vcmp_def py_gt_def split: if_splits)

lemma vcmp_trans:
  "vcmp d a b = Inr c1 \<Longrightarrow> vcmp d b c = Inr c2 \<Longrightarrow> c1 \<le> 0 \<Longrightarrow> c2 \<le> 0 \<Longrightarrow>
   \<exists>c3. vcmp d a c = Inr c3 \<and> c3 \<le> 0 \<and> (c3 = 0 \<longleftrightarrow> c1 = 0 \<and> c2 = 0)"
  by (cases a; cases b; cases c; cases d) (auto simp: vcmp_def py_gt_def split: if_splits)

lemma compare_antisym: "compare ob ra rb = Inr c \<Longrightarrow> compare ob rb ra = Inr (- c)"
proof (induction ob arbitrary: c)
  case Nil
  then show ?case by simp
next
  case (Cons item items)
  from Cons.prems obtain va vb k where
    va: "evaluate ra [] (ob_expr item) = Inr va" and
    vb: "evaluate rb [] (ob_expr item) = Inr vb" and
    k: "vcmp (direction item) va vb = Inr k" and
    rest: "if k = 0 then compare items ra rb = Inr c else c = k"
    unfolding compare_Cons by (auto split: sum.splits if_splits)
  from vcmp_antisym[OF k] have k': "vcmp (direction item) vb va = Inr (- k)" .
  show ?case
  proof (cases "k = 0")
    case True
    with rest Cons.IH have "compare items rb ra = Inr (- c)" by simp
    with True va vb k' show ?thesis unfolding compare_Cons by simp
  next
    case False
    with rest va vb k' show ?thesis unfolding compare_Cons by simp
  qed
qed

lemma compare_trans:
  "compare ob ra rb = Inr c1 \<Longrightarrow> compare ob rb rc = Inr c2 \<Longrightarrow> c1 \<le> 0 \<Longrightarrow> c2 \<le> 0 \<Longrightarrow>
   \<exists>c3. compare ob ra rc = Inr c3 \<and> c3 \<le> 0 \<and> (c3 = 0 \<longleftrightarrow> c1 = 0 \<and> c2 = 0)"
proof (induction ob arbitrary: c1 c2)
  case Nil
  then show ?case by simp
next
  case (Cons item items)
  from Cons.prems(1) obtain va vb k1 where
    va: "evaluate ra [] (ob_expr item) = Inr va" and
    vb: "evaluate rb [] (ob_expr item) = Inr vb" and
    k1: "vcmp (direction item) va vb = Inr k1" and
    rest1: "if k1 = 0 then compare items ra rb = Inr c1 else c1 = k1"
    unfolding compare_Cons by (auto split: sum.splits if_splits)
  from Cons.prems(2) vb obtain vc k2 where
    vc: "evaluate rc [] (ob_expr item) = Inr vc" and
    k2: "vcmp (direction item) vb vc = Inr k2" and
    rest2: "if k2 = 0 then compare items rb rc = Inr c2 else c2 = k2"
    unfolding compare_Cons by (auto split: sum.splits if_splits)
  have k1le: "k1 \<le> 0"
    using rest1 Cons.prems(3) by (auto split: if_splits)
  have k2le: "k2 \<le> 0"
    using rest2 Cons.prems(4) by (auto split: if_splits)
  from vcmp_trans[OF k1 k2 k1le k2le] obtain k3 where
    k3: "vcmp (direction item) va vc = Inr k3" and k3le: "k3 \<le> 0" and
    k3z: "k3 = 0 \<longleftrightarrow> k1 = 0 \<and> k2 = 0" by blast
  show ?case
  proof (cases "k3 = 0")
    case True
    with k3z rest1 rest2 have r: "compare items ra rb = Inr c1" "compare items rb rc = Inr c2"
      by simp_all
    from Cons.IH[OF r Cons.prems(3,4)] True va vc k3 show ?thesis
      unfolding compare_Cons by simp
  next
    case False
    have "c1 \<noteq> 0 \<or> c2 \<noteq> 0"
      using False k3z rest1 rest2 by (auto split: if_splits)
    with False va vc k3 k3le show ?thesis
      unfolding compare_Cons by auto
  qed
qed

lemma sorted_insert_set: "sorted_insert ob x ys = Inr zs \<Longrightarrow> mset zs = add_mset x (mset ys)"
  by (induction ys arbitrary: zs) (auto split: sum.splits if_splits)

lemma sorted_insert_sorted:
  "sorted_insert ob x ys = Inr zs \<Longrightarrow> sorted_wrt (ordered ob) ys \<Longrightarrow> sorted_wrt (ordered ob) zs"
proof (induction ys arbitrary: zs)
  case Nil
  then show ?case by auto
next
  case (Cons y ys)
  from Cons.prems(1) obtain c where c: "compare ob (order_row x) (order_row y) = Inr c"
    by (auto split: sum.splits)
  show ?case
  proof (cases "c < 0")
    case True
    with Cons.prems(1) c have zs: "zs = x # y # ys" by simp
    have xy: "ordered ob x y" using c True by (auto simp: ordered_def)
    have "ordered ob x z" if "z \<in> set ys" for z
    proof -
      from that Cons.prems(2) have "ordered ob y z" by auto
      then obtain c2 where c2: "compare ob (order_row y) (order_row z) = Inr c2" "c2 \<le> 0"
        by (auto simp: ordered_def)
      from compare_trans[OF c c2(1) _ c2(2)] True show ?thesis
        by (auto simp: ordered_def)
    qed
    with xy zs Cons.prems(2) show ?thesis by auto
  next
    case False
    with Cons.prems(1) c obtain ws where ws: "sorted_insert ob x ys = Inr ws" "zs = y # ws"
      by (auto split: sum.splits)
    from Cons.prems(2) have "sorted_wrt (ordered ob) ys" by simp
    from Cons.IH[OF ws(1) this] have sws: "sorted_wrt (ordered ob) ws" .
    from compare_antisym[OF c] False have yx: "ordered ob y x"
      by (auto simp: ordered_def)
    from sorted_insert_set[OF ws(1)] have "set_mset (mset ws) = set_mset (add_mset x (mset ys))"
      by simp
    then have "set ws = insert x (set ys)" by simp
    with yx Cons.prems(2) sws ws(2) show ?thesis by auto
  qed
qed

lemma sort_rows_sorted:
  "sort_rows ob acc rws = Inr ys \<Longrightarrow> sorted_wrt (ordered ob) acc \<Longrightarrow>
   sorted_wrt (ordered ob) ys \<and> mset ys = mset acc + mset rws"
proof (induction rws arbitrary: acc)
  case Nil
  then show ?case by simp
next
  case (Cons x xs)
  from Cons.prems(1) obtain acc' where a: "sorted_insert ob x acc = Inr acc'" "sort_rows ob acc' xs = Inr ys"
    by (auto split: sum.splits)
  from sorted_insert_sorted[OF a(1) Cons.prems(2)] have "sorted_wrt (ordered ob) acc'" .
  from Cons.IH[OF a(2) this] sorted_insert_set[OF a(1)] show ?case by simp
qed

lemma compare_append_tie:
  "compare pre ra rb = Inr 0 \<Longrightarrow> compare (pre @ post) ra rb = compare post ra rb"
proof (induction pre)
  case Nil
  then show ?case by simp
next
  case (Cons item items)
  from Cons.prems obtain va vb k where
    va: "evaluate ra [] (ob_expr item) = Inr va" and
    vb: "evaluate rb [] (ob_expr item) = Inr vb" and
    k: "vcmp (direction item) va vb = Inr k" and
    rest: "if k = 0 then compare items ra rb = Inr 0 else 0 = k"
    unfolding compare_Cons by (auto split: sum.splits if_splits)
  then have "k = 0" by (auto split: if_splits)
  with rest Cons.IH va vb k show ?case
    unfolding append_Cons compare_Cons by simp
qed

section \<open>Helper facts: table storage\<close>

lemma map_of_dict_set: "map_of (dict_set d k v) = (map_of d)(k \<mapsto> v)"
  by (induction d) auto

lemma set_dict_set: "set (dict_set d k v) \<subseteq> insert (k, v) (set d)"
  by (induction d) (auto split: if_splits)

lemma map_fst_dict_set:
  "map fst (dict_set d k v) = (if k \<in> set (map fst d) then map fst d else map fst d @ [k])"
  by (induction d) force+

lemma keys_dict_set: "fst ` set (dict_set d k v) = insert k (fst ` set d)"
  using map_fst_dict_set[of d k v] by (metis (no_types) insert_absorb list.set_map set_append list.simps(15) empty_set Un_insert_right sup_bot.right_neutral)

lemma set_dict_del: "set (dict_del d k) \<subseteq> set d"
  by (auto simp: dict_del_def)

lemma storage_insert_props:
  assumes "storage_insert ts r = Inr (ts', rid)"
  shows "rid = next_row_id ts" "next_row_id ts' = next_row_id ts + 1" "schema ts' = schema ts"
    "\<exists>vr. validate_row (schema ts) r = Inr vr \<and> rows ts' = dict_set (rows ts) rid vr"
  using assms by (auto simp: storage_insert_def Let_def split: sum.splits)

lemma storage_update_props:
  assumes "storage_update ts rid u = Inr (ts', b)"
  shows "next_row_id ts' = next_row_id ts" "schema ts' = schema ts"
    "rows ts' = rows ts \<or> (\<exists>r0 vr. validate_row (schema ts) r0 = Inr vr \<and> rid \<in> fst ` set (rows ts) \<and> rows ts' = dict_set (rows ts) rid vr)"
proof -
  show "next_row_id ts' = next_row_id ts" "schema ts' = schema ts"
    using assms by (auto simp: storage_update_def split: sum.splits option.splits)
  show "rows ts' = rows ts \<or> (\<exists>r0 vr. validate_row (schema ts) r0 = Inr vr \<and> rid \<in> fst ` set (rows ts) \<and> rows ts' = dict_set (rows ts) rid vr)"
  proof (cases "map_of (rows ts) rid")
    case None
    with assms show ?thesis by (simp add: storage_update_def)
  next
    case (Some old_row)
    then have "rid \<in> fst ` set (rows ts)"
      by (force dest: map_of_SomeD)
    from Some assms obtain vr where
      vr: "validate_row (schema ts) (merge_updates (schema_columns (schema ts)) old_row u) = Inr vr"
        "rows ts' = dict_set (rows ts) rid vr"
      by (auto simp: storage_update_def split: sum.splits)
    with \<open>rid \<in> fst ` set (rows ts)\<close> show ?thesis by blast
  qed
qed

lemma storage_delete_props:
  "next_row_id (fst (storage_delete ts rid)) = next_row_id ts"
  "schema (fst (storage_delete ts rid)) = schema ts"
  "set (rows (fst (storage_delete ts rid))) \<subseteq> set (rows ts)"
  by (auto simp: storage_delete_def dict_del_def split: option.splits)

lemma ids_inv_step: "ids_inv ts0 st \<Longrightarrow> ids_inv ts0 (apply_op st op)"
proof (cases st)
  case (Pair ts ids)
  assume inv: "ids_inv ts0 st"
  show ?thesis
  proof (cases op)
    case (Insert r)
    show ?thesis
    proof (cases "storage_insert ts r")
      case (Inl e)
      with inv Pair Insert show ?thesis by simp
    next
      case (Inr p)
      obtain ts' rid where p: "p = (ts', rid)" by (cases p)
      note props = storage_insert_props[OF Inr[unfolded p]]
      from props(4) obtain vr where vr: "rows ts' = dict_set (rows ts) rid vr" by blast
      have "fst ` set (rows ts') \<subseteq> insert rid (fst ` set (rows ts))"
        using vr by (simp add: keys_dict_set)
      with inv Pair Insert Inr p props(1,2) show ?thesis
        by (auto simp: ids_inv_def)
    qed
  next
    case (Update rid u)
    show ?thesis
    proof (cases "storage_update ts rid u")
      case (Inl e)
      with inv Pair Update show ?thesis by simp
    next
      case (Inr p)
      obtain ts' b where p: "p = (ts', b)" by (cases p)
      note props = storage_update_props[OF Inr[unfolded p]]
      have "fst ` set (rows ts') \<subseteq> fst ` set (rows ts)"
      proof -
        from props(3) show ?thesis
        proof
          assume "rows ts' = rows ts" then show ?thesis by simp
        next
          assume "\<exists>r0 vr. validate_row (schema ts) r0 = Inr vr \<and> rid \<in> fst ` set (rows ts) \<and> rows ts' = dict_set (rows ts) rid vr"
          then obtain vr where "rid \<in> fst ` set (rows ts)" "rows ts' = dict_set (rows ts) rid vr" by blast
          then show ?thesis by (simp add: keys_dict_set)
        qed
      qed
      with inv Pair Update Inr p props(1) show ?thesis
        by (auto simp: ids_inv_def)
    qed
  next
    case (Delete rid)
    with inv Pair storage_delete_props(1,3)[of ts rid] show ?thesis
      by (auto simp: ids_inv_def)
  qed
qed

lemma ids_inv_run: "ids_inv ts0 st \<Longrightarrow> ids_inv ts0 (foldl apply_op st ops)"
  by (induction ops arbitrary: st) (simp_all add: ids_inv_step)

lemma py_int_nonnull: "py_int v = Inr w \<Longrightarrow> w \<noteq> VNull"
  by (cases v) (auto split: option.splits)

lemma validate_and_convert_nonnull:
  "validate_and_convert v t = Inr w \<Longrightarrow> v \<noteq> VNull \<Longrightarrow> w \<noteq> VNull"
  by (auto simp: validate_and_convert_def Let_def dest: py_int_nonnull
           split: data_type.splits val.splits sum.splits if_splits)

lemma validate_columns_result:
  "validate_columns cols r acc = Inr out \<Longrightarrow> distinct (map name cols) \<Longrightarrow>
   (\<forall>k. k \<notin> name ` set cols \<longrightarrow> map_of out k = map_of acc k) \<and>
   (\<forall>c\<in>set cols. default_value c \<noteq> VNull \<longrightarrow> (\<exists>w. map_of out (name c) = Some w \<and> w \<noteq> VNull))"
proof (induction cols arbitrary: acc)
  case Nil
  then show ?case by simp
next
  case (Cons col cols)
  define v where "v = row_value r (name col)"
  define v' where "v' = (if v = VNull \<and> default_value col \<noteq> VNull then default_value col else v)"
  from Cons.prems(1) obtain w where
    w: "validate_columns cols r (dict_set acc (name col) w) = Inr out"
       "v' \<noteq> VNull \<longrightarrow> validate_and_convert v' (col_type col) = Inr w"
       "v' = VNull \<longrightarrow> w = VNull"
    by (auto simp: Let_def v_def v'_def split: if_splits sum.splits)
  from Cons.prems(2) have d: "distinct (map name cols)" and nin: "name col \<notin> name ` set cols"
    by auto
  from Cons.IH[OF w(1) d] have
    ih1: "\<And>k. k \<notin> name ` set cols \<Longrightarrow> map_of out k = map_of (dict_set acc (name col) w) k" and
    ih2: "\<And>c. c \<in> set cols \<Longrightarrow> default_value c \<noteq> VNull \<Longrightarrow> \<exists>w. map_of out (name c) = Some w \<and> w \<noteq> VNull"
    by blast+
  have a: "map_of out k = map_of acc k" if "k \<notin> name ` set (col # cols)" for k
    using that ih1[of k] by (simp add: map_of_dict_set)
  have b: "\<exists>w. map_of out (name col) = Some w \<and> w \<noteq> VNull" if "default_value col \<noteq> VNull"
  proof -
    from that have "v' \<noteq> VNull" by (simp add: v'_def)
    with w(2) validate_and_convert_nonnull have "w \<noteq> VNull" by blast
    moreover have "map_of out (name col) = Some w"
      using ih1[OF nin] by (simp add: map_of_dict_set)
    ultimately show ?thesis by blast
  qed
  from a b ih2 show ?case by auto
qed

lemma add_columns_distinct:
  "add_columns sch cs = Inr sch' \<Longrightarrow> distinct (map (\<lambda>c. lower (name c)) (schema_columns sch)) \<Longrightarrow>
   distinct (map (\<lambda>c. lower (name c)) (schema_columns sch'))"
proof (induction cs arbitrary: sch)
  case Nil
  then show ?case by simp
next
  case (Cons c cs)
  from Cons.prems(1) obtain s1 where
    s1: "add_column sch (post_init c) = Inr s1" "add_columns s1 cs = Inr sch'"
    by (auto split: sum.splits)
  from s1(1) Cons.prems(2) have "distinct (map (\<lambda>c. lower (name c)) (schema_columns s1))"
    by (auto simp: add_column_def split: if_splits)
  from Cons.IH[OF s1(2) this] show ?case .
qed

lemma build_schema_distinct:
  assumes "build_schema n cs = Inr sch"
  shows "distinct (map name (schema_columns sch))"
proof -
  from assms have "distinct (map (\<lambda>c. lower (name c)) (schema_columns sch))"
    using add_columns_distinct[of "empty_schema n" cs sch]
    by (simp add: build_schema_def empty_schema_def)
  then have "distinct (map (lower \<circ> name) (schema_columns sch))"
    by (simp add: comp_def)
  then show ?thesis
    by (simp add: distinct_map inj_on_def)
qed

lemma validated_rows_step: "validated_rows sch st \<Longrightarrow> validated_rows sch (apply_op st op)"
proof (cases st)
  case (Pair ts ids)
  assume inv: "validated_rows sch st"
  show ?thesis
  proof (cases op)
    case (Insert r)
    show ?thesis
    proof (cases "storage_insert ts r")
      case (Inl e)
      with inv Pair Insert show ?thesis by simp
    next
      case (Inr p)
      obtain ts' rid where p: "p = (ts', rid)" by (cases p)
      note props = storage_insert_props[OF Inr[unfolded p]]
      from props(4) obtain vr where vr: "validate_row (schema ts) r = Inr vr" "rows ts' = dict_set (rows ts) rid vr" by blast
      with inv Pair Insert Inr p props(3) set_dict_set[of "rows ts" rid vr] show ?thesis
        by (fastforce simp: validated_rows_def)
    qed
  next
    case (Update rid u)
    show ?thesis
    proof (cases "storage_update ts rid u")
      case (Inl e)
      with inv Pair Update show ?thesis by simp
    next
      case (Inr p)
      obtain ts' b where p: "p = (ts', b)" by (cases p)
      note props = storage_update_props[OF Inr[unfolded p]]
      from props(3) show ?thesis
      proof
        assume "rows ts' = rows ts"
        with inv Pair Update Inr p props(2) show ?thesis by (simp add: validated_rows_def)
      next
        assume "\<exists>r0 vr. validate_row (schema ts) r0 = Inr vr \<and> rid \<in> fst ` set (rows ts) \<and> rows ts' = dict_set (rows ts) rid vr"
        then obtain r0 vr where vr: "validate_row (schema ts) r0 = Inr vr" "rows ts' = dict_set (rows ts) rid vr" by blast
        with inv Pair Update Inr p props(2) set_dict_set[of "rows ts" rid vr] show ?thesis
          by (fastforce simp: validated_rows_def)
      qed
    qed
  next
    case (Delete rid)
    with inv Pair storage_delete_props(2,3)[of ts rid] show ?thesis
      by (fastforce simp: validated_rows_def)
  qed
qed

lemma validated_rows_run: "validated_rows sch st \<Longrightarrow> validated_rows sch (foldl apply_op st ops)"
  by (induction ops arbitrary: st) (simp_all add: validated_rows_step)

section \<open>Helper facts: B-tree insertion\<close>

lemma compare_keys_rank:
  assumes "like_typed S" "a \<in> S" "b \<in> S"
  shows "compare_keys a b = (if rank a < rank b then - 1 else if rank b < rank a then 1 else 0)"
proof -
  from assms consider (num) "num_of a \<noteq> None" "num_of b \<noteq> None" | (str) "\<exists>s. a = VStr s" "\<exists>s. b = VStr s"
    by (auto simp: like_typed_def)
  then show ?thesis
  proof cases
    case num
    then show ?thesis
      by (cases a; cases b) (auto simp: compare_keys_def py_gt_def)
  next
    case str
    then show ?thesis
      by (auto simp: compare_keys_def py_gt_def)
  qed
qed

lemma lt_rank: "like_typed S \<Longrightarrow> a \<in> S \<Longrightarrow> b \<in> S \<Longrightarrow> (compare_keys a b < 0) = (rank a < rank b)"
  by (simp add: compare_keys_rank)

lemma gt_rank: "like_typed S \<Longrightarrow> a \<in> S \<Longrightarrow> b \<in> S \<Longrightarrow> (compare_keys a b > 0) = (rank b < rank a)"
  by (auto simp add: compare_keys_rank)

lemma eq_rank: "like_typed S \<Longrightarrow> a \<in> S \<Longrightarrow> b \<in> S \<Longrightarrow> (compare_keys a b = 0) = (rank a = rank b)"
  by (auto simp add: compare_keys_rank)

lemma insert_pos_le: "insert_pos key ks \<le> length ks"
  by (simp add: insert_pos_def) (metis length_dropWhile_le length_rev)

lemma insert_pos_split:
  "take (insert_pos key ks) ks = rev (dropWhile (\<lambda>k. compare_keys key k < 0) (rev ks))"
  "drop (insert_pos key ks) ks = rev (takeWhile (\<lambda>k. compare_keys key k < 0) (rev ks))"
proof -
  let ?P = "\<lambda>k. compare_keys key k < 0"
  have "rev ks = takeWhile ?P (rev ks) @ dropWhile ?P (rev ks)" by simp
  then have "ks = rev (dropWhile ?P (rev ks)) @ rev (takeWhile ?P (rev ks))"
    by (metis rev_append rev_rev_ident)
  then have "take (insert_pos key ks) ks = take (insert_pos key ks) (rev (dropWhile ?P (rev ks)) @ rev (takeWhile ?P (rev ks)))"
    and "drop (insert_pos key ks) ks = drop (insert_pos key ks) (rev (dropWhile ?P (rev ks)) @ rev (takeWhile ?P (rev ks)))"
    by simp_all
  then show "take (insert_pos key ks) ks = rev (dropWhile ?P (rev ks))"
    and "drop (insert_pos key ks) ks = rev (takeWhile ?P (rev ks))"
    by (simp_all add: insert_pos_def)
qed

lemma insert_pos_after:
  "k \<in> set (drop (insert_pos key ks) ks) \<Longrightarrow> compare_keys key k < 0"
  by (auto simp: insert_pos_split dest: set_takeWhileD)

lemma insert_pos_before:
  assumes "0 < insert_pos key ks"
  shows "\<not> compare_keys key (ks ! (insert_pos key ks - 1)) < 0"
proof -
  let ?P = "\<lambda>k. compare_keys key k < 0"
  let ?d = "dropWhile ?P (rev ks)"
  from assms have ne: "?d \<noteq> []" by (auto simp: insert_pos_def)
  have "ks ! (insert_pos key ks - 1) = take (insert_pos key ks) ks ! (insert_pos key ks - 1)"
    using assms by simp
  also have "\<dots> = rev ?d ! (insert_pos key ks - 1)"
    by (simp only: insert_pos_split)
  also have "\<dots> = rev ?d ! (length ?d - 1)"
    by (simp add: insert_pos_def)
  also have "\<dots> = hd ?d"
    using ne by (simp add: rev_nth hd_conv_nth)
  finally show ?thesis
    using hd_dropWhile[OF ne] by simp
qed

lemma join_prefix:
  "length A = length EA \<Longrightarrow> join (A @ R) (EA @ ER) = pairs A EA @ join R ER"
  by (induction A EA rule: list_induct2) (auto simp: pairs_def)

lemma join_Cons_left: "join (l # ls) es = l @ join ([] # ls) es"
  by (cases es) auto

lemma pairs_snoc:
  "length A = length EA \<Longrightarrow> pairs (A @ [l]) (EA @ [e]) = pairs A EA @ l @ [e]"
  by (induction A EA rule: list_induct2) (auto simp: pairs_def)

lemma join_child:
  assumes "length L = Suc (length E)" "p \<le> length E"
  shows "join L E = pairs (take p L) (take p E) @ (L ! p) @ join ([] # drop (Suc p) L) (drop p E)"
proof -
  have L: "L = take p L @ (L ! p) # drop (Suc p) L"
    using assms by (simp add: id_take_nth_drop)
  have E: "E = take p E @ drop p E" by simp
  have "join L E = join (take p L @ (L ! p) # drop (Suc p) L) (take p E @ drop p E)"
    using L by simp
  also have "\<dots> = pairs (take p L) (take p E) @ join ((L ! p) # drop (Suc p) L) (drop p E)"
    using assms by (intro join_prefix) simp
  finally show ?thesis
    using join_Cons_left[of "L ! p"] by simp
qed

lemma join_entry:
  assumes "length L = Suc (length E)" "i < length E"
  shows "join L E = (pairs (take i L) (take i E) @ (L ! i)) @ (E ! i) # join (drop (Suc i) L) (drop (Suc i) E)"
proof -
  have "drop i E = (E ! i) # drop (Suc i) E"
    using assms by (simp add: Cons_nth_drop_Suc)
  moreover have "drop (Suc i) L \<noteq> []" using assms by simp
  then obtain l ls where "drop (Suc i) L = l # ls" by (cases "drop (Suc i) L") auto
  ultimately have "join ([] # drop (Suc i) L) (drop i E) = (E ! i) # join (drop (Suc i) L) (drop (Suc i) E)"
    by simp
  with join_child[OF assms(1), of i] assms(2) show ?thesis by simp
qed

lemma pairs_last:
  assumes "length L = Suc (length E)" "0 < p" "p \<le> length E"
  shows "\<exists>X. pairs (take p L) (take p E) = X @ [E ! (p - 1)]"
proof -
  obtain q where q: "p = Suc q" using assms(2) by (cases p) auto
  have "take p L = take q L @ [L ! q]" "take p E = take q E @ [E ! q]"
    using assms q by (simp_all add: take_Suc_conv_app_nth)
  moreover have "length (take q L) = length (take q E)" using assms q by simp
  ultimately have "pairs (take p L) (take p E) = pairs (take q L) (take q E) @ (L ! q) @ [E ! q]"
    by (simp add: pairs_snoc)
  then show ?thesis using q by auto
qed

lemma join_tail_hd:
  assumes "length L = Suc (length E)" "p \<le> length E"
  shows "join ([] # drop (Suc p) L) (drop p E) = (if p < length E then (E ! p) # join (drop (Suc p) L) (drop (Suc p) E) else [])"
proof (cases "p < length E")
  case True
  then have "drop p E = (E ! p) # drop (Suc p) E" by (simp add: Cons_nth_drop_Suc)
  moreover obtain l ls where "drop (Suc p) L = l # ls"
    using assms True by (cases "drop (Suc p) L") auto
  ultimately show ?thesis using True by simp
next
  case False
  with assms show ?thesis by simp
qed

lemma ins_pre:
  "\<forall>x\<in>set pre. rank (fst x) < rank key \<Longrightarrow>
   ins_entry u key r (pre @ rest) = (case ins_entry u key r rest of (e, es') \<Rightarrow> (e, pre @ es'))"
  by (induction pre) (auto split: prod.splits)

lemma ins_post:
  "post = [] \<or> rank key < rank (fst (hd post)) \<Longrightarrow>
   ins_entry u key r (mid @ post) = (case ins_entry u key r mid of (e, m') \<Rightarrow> (e, m' @ post))"
proof (induction mid)
  case Nil
  then show ?case by (cases post) auto
next
  case (Cons a mid)
  then show ?case by (cases a) (auto split: prod.splits)
qed

lemma ins_keys:
  "ins_entry u key r es = (e, es') \<Longrightarrow> fst ` set es' \<subseteq> insert key (fst ` set es)"
proof (induction es arbitrary: e es')
  case Nil
  then show ?case by auto
next
  case (Cons a es)
  obtain k rs where a: "a = (k, rs)" by (cases a)
  show ?case
  proof (cases "rank key < rank k \<or> rank key = rank k")
    case True
    with Cons.prems a show ?thesis by (auto split: if_splits)
  next
    case False
    with Cons.prems a obtain es1 where es1: "ins_entry u key r es = (e, es1)" "es' = (k, rs) # es1"
      by (auto split: prod.splits)
    from Cons.IH[OF es1(1)] es1(2) a show ?thesis by auto
  qed
qed

lemma ins_ranks:
  "ins_entry u key r es = (e, es') \<Longrightarrow>
   (\<lambda>x. rank (fst x)) ` set es' \<subseteq> insert (rank key) ((\<lambda>x. rank (fst x)) ` set es)"
proof (induction es arbitrary: e es')
  case Nil
  then show ?case by auto
next
  case (Cons a es)
  obtain k rs where a: "a = (k, rs)" by (cases a)
  show ?case
  proof (cases "rank key < rank k \<or> rank key = rank k")
    case True
    with Cons.prems a show ?thesis by (auto split: if_splits)
  next
    case False
    with Cons.prems a obtain es1 where es1: "ins_entry u key r es = (e, es1)" "es' = (k, rs) # es1"
      by (auto split: prod.splits)
    from Cons.IH[OF es1(1)] es1(2) a show ?thesis by auto
  qed
qed

lemma ins_sorted:
  "sorted_entries es \<Longrightarrow> ins_entry u key r es = (e, es') \<Longrightarrow> sorted_entries es'"
proof (induction es arbitrary: e es')
  case Nil
  then show ?case by (auto simp: sorted_entries_def)
next
  case (Cons a es)
  obtain k rs where a: "a = (k, rs)" by (cases a)
  show ?case
  proof (cases "rank key < rank k \<or> rank key = rank k")
    case True
    with Cons.prems a show ?thesis
      by (fastforce simp: sorted_entries_def split: if_splits)
  next
    case False
    with Cons.prems a obtain es1 where es1: "ins_entry u key r es = (e, es1)" "es' = (k, rs) # es1"
      by (auto split: prod.splits)
    from Cons.prems(1) have s: "sorted_entries es" by (simp add: sorted_entries_def)
    from Cons.IH[OF s es1(1)] have s1: "sorted_entries es1" .
    from False have kk: "rank k < rank key" by auto
    have "rank k < x" if "x \<in> (\<lambda>x. rank (fst x)) ` set es1" for x
    proof -
      from ins_ranks[OF es1(1)] that have "x = rank key \<or> x \<in> (\<lambda>x. rank (fst x)) ` set es" by auto
      with kk Cons.prems(1) a show ?thesis by (auto simp: sorted_entries_def)
    qed
    with s1 es1(2) a show ?thesis by (auto simp: sorted_entries_def)
  qed
qed

lemma zip_update_right: "zip ks (vs[i := v]) = (zip ks vs)[i := (ks ! i, v)]"
  by (metis list_update_id zip_update)

lemma node_entry:
  assumes "well_shaped (Node ks vs cs l)" "i < length ks"
  shows "\<exists>A B. \<forall>v'. inorder (Node ks (vs[i := v']) cs l) = A @ (ks ! i, v') # B"
proof (cases l)
  case True
  let ?E = "zip ks vs"
  have "(zip ks vs)[i := (ks ! i, v')] = take i ?E @ (ks ! i, v') # drop (Suc i) ?E" for v'
    using assms by (simp add: upd_conv_take_nth_drop)
  with True show ?thesis by (auto simp: zip_update_right)
next
  case False
  let ?E = "zip ks vs" and ?L = "map inorder cs"
  have len: "length ?L = Suc (length ?E)" using assms False by simp
  have "join ?L (?E[i := (ks ! i, v')]) =
        (pairs (take i ?L) (take i ?E) @ (?L ! i)) @ (ks ! i, v') # join (drop (Suc i) ?L) (drop (Suc i) ?E)" for v'
    using join_entry[of ?L "?E[i := (ks ! i, v')]" i] len assms by simp
  then have "\<forall>v'. inorder (Node ks (vs[i := v']) cs l) =
      (pairs (take i ?L) (take i ?E) @ (?L ! i)) @ (ks ! i, v') # join (drop (Suc i) ?L) (drop (Suc i) ?E)"
    using False by (simp add: zip_update_right)
  then show ?thesis by blast
qed

lemma node_child:
  assumes "well_shaped (Node ks vs cs False)" "p \<le> length ks"
  shows "\<exists>A B. (\<forall>c'. inorder (Node ks vs (cs[p := c']) False) = A @ inorder c' @ B)
     \<and> (A = [] \<or> (0 < p \<and> fst (last A) = ks ! (p - 1)))
     \<and> (B = [] \<or> (p < length ks \<and> fst (hd B) = ks ! p))"
proof -
  let ?E = "zip ks vs" and ?L = "map inorder cs"
  let ?A = "pairs (take p ?L) (take p ?E)" and ?B = "join ([] # drop (Suc p) ?L) (drop p ?E)"
  have len: "length ?L = Suc (length ?E)" "p \<le> length ?E" using assms by simp_all
  have plt: "p < length ?L" using assms by simp
  have 1: "inorder (Node ks vs (cs[p := c']) False) = ?A @ inorder c' @ ?B" for c'
    using join_child[of "?L[p := inorder c']" ?E p] len plt by (simp add: map_update)
  have 2: "?A = [] \<or> (0 < p \<and> fst (last ?A) = ks ! (p - 1))"
  proof (cases "0 < p")
    case True
    from pairs_last[OF len(1) True len(2)] obtain X where "?A = X @ [?E ! (p - 1)]" by blast
    with True assms show ?thesis by simp
  next
    case False
    then show ?thesis by (simp add: pairs_def)
  qed
  have 3: "?B = [] \<or> (p < length ks \<and> fst (hd ?B) = ks ! p)"
    using join_tail_hd[OF len] assms by auto
  from 1 2 3 show ?thesis by blast
qed

lemma sorted_entries_before:
  "sorted_entries (A @ x # B) \<Longrightarrow> y \<in> set A \<Longrightarrow> rank (fst y) < rank (fst x)"
  by (auto simp: sorted_entries_def sorted_wrt_append)

lemma sorted_entries_mid:
  "sorted_entries (A @ M @ B) \<Longrightarrow> sorted_entries M"
  by (auto simp: sorted_entries_def sorted_wrt_append)

lemma sorted_entries_last:
  assumes "sorted_entries (A @ R)" "A \<noteq> []" "y \<in> set A"
  shows "rank (fst y) \<le> rank (fst (last A))"
proof -
  from assms(2) obtain A' z where A: "A = A' @ [z]" by (metis rev_exhaust)
  with assms(1) have "sorted_entries (A' @ z # R)" by simp
  from sorted_entries_before[OF this, of y] assms(3) A show ?thesis
    by (cases "y = z") auto
qed

lemma sorted_entries_hd:
  assumes "sorted_entries (A @ M @ B)" "B \<noteq> []" "y \<in> set B"
  shows "rank (fst (hd B)) \<le> rank (fst y)"
proof -
  from assms(2) obtain z B' where B: "B = z # B'" by (cases B) auto
  with assms(1) have "sorted_entries ((A @ M) @ z # B')" by simp
  then have "sorted_entries (z # B')" by (auto simp: sorted_entries_def sorted_wrt_append)
  with assms(3) B show ?thesis by (auto simp: sorted_entries_def)
qed

lemma entry_case:
  assumes "well_shaped node" "sorted_entries (inorder node)" "i < length (keys node)"
    and "rank (keys node ! i) = rank key"
    and "add_row_id u (vals node) i r = (e, vs')"
  shows "ins_entry u key r (inorder node) = (e, inorder (Node (keys node) vs' (children node) (is_leaf node)))
     \<and> well_shaped (Node (keys node) vs' (children node) (is_leaf node))"
proof -
  obtain ks vs cs l where node: "node = Node ks vs cs l" by (cases node)
  from assms(1,3) node have len: "i < length vs" "length vs = length ks" by auto
  from node_entry[of ks vs cs l i] assms(1,3) node obtain A B where
    AB: "\<And>v'. inorder (Node ks (vs[i := v']) cs l) = A @ (ks ! i, v') # B" by auto
  from AB[of "vs ! i"] have io: "inorder node = A @ (ks ! i, vs ! i) # B"
    by (simp add: node)
  have pre: "\<forall>x\<in>set A. rank (fst x) < rank key"
    using sorted_entries_before[of A "(ks ! i, vs ! i)" B] assms(2,4) io node by auto
  have well_shaped': "well_shaped (Node ks (vs[i := v']) cs l)" for v'
    using assms(1) node by simp
  consider (dup) "u" "r \<notin> set (vs ! i)" | (app) "\<not> u" "r \<notin> set (vs ! i)" | (same) "r \<in> set (vs ! i)"
    by blast
  then show ?thesis
  proof cases
    case dup
    with assms(5) len node have "e = Some (ValueError ''Duplicate key'')" "vs' = vs"
      by (auto simp: add_row_id_def)
    with dup io pre assms(1,4) node show ?thesis
      by (simp add: ins_pre)
  next
    case app
    with assms(5) len node have "e = None" "vs' = vs[i := vs ! i @ [r]]"
      by (auto simp: add_row_id_def)
    with app io pre assms(4) node AB[of "vs ! i @ [r]"] well_shaped'[of "vs ! i @ [r]"] show ?thesis
      by (simp add: ins_pre)
  next
    case same
    with assms(5) len node have "e = None" "vs' = vs"
      by (auto simp: add_row_id_def)
    with same io pre assms(1,4) node show ?thesis
      by (simp add: ins_pre)
  qed
qed

lemma leaf_case:
  assumes "well_shaped node" "is_leaf node" "sorted_entries (inorder node)"
    and "pos \<le> length (keys node)"
    and "\<forall>k\<in>set (take pos (keys node)). rank k < rank key"
    and "\<forall>k\<in>set (drop pos (keys node)). rank key < rank k"
  shows "ins_entry u key r (inorder node) =
           (None, inorder (Node (insert_at pos key (keys node)) (insert_at pos [r] (vals node)) (children node) (is_leaf node)))
     \<and> well_shaped (Node (insert_at pos key (keys node)) (insert_at pos [r] (vals node)) (children node) (is_leaf node))"
proof -
  obtain ks vs cs where node: "node = Node ks vs cs True" using assms(2) by (cases node) auto
  from assms(1) node have len: "length vs = length ks" "cs = []" by auto
  let ?pre = "zip (take pos ks) (take pos vs)" and ?post = "zip (drop pos ks) (drop pos vs)"
  have io: "inorder node = ?pre @ ?post"
    using node by (simp add: zip_append[symmetric] len del: zip_append)
  have pre: "\<forall>x\<in>set ?pre. rank (fst x) < rank key"
    using assms(5) node by (auto dest: set_zip_leftD)
  have post: "ins_entry u key r ?post = (None, (key, [r]) # ?post)"
  proof (cases ?post)
    case Nil
    then have "ins_entry u key r ?post = ins_entry u key r []" by (simp only:)
    with Nil show ?thesis by (simp del: zip_eq_Nil_iff)
  next
    case (Cons a list)
    obtain k rs where a: "a = (k, rs)" by (cases a)
    with Cons have "(k, rs) \<in> set ?post" by simp
    then have "k \<in> set (drop pos ks)" by (rule set_zip_leftD)
    with assms(6) node have "rank key < rank k" by simp
    with Cons a show ?thesis by simp
  qed
  have new: "zip (insert_at pos key ks) (insert_at pos [r] vs) = ?pre @ (key, [r]) # ?post"
    using assms(4) node len by (simp add: insert_at_def)
  from io pre post new node len show ?thesis
    by (simp add: ins_pre insert_at_def)
qed

lemma descend_case:
  assumes "well_shaped node" "\<not> is_leaf node" "sorted_entries (inorder node)"
    and "i \<le> length (keys node)"
    and "0 < i \<longrightarrow> rank (keys node ! (i - 1)) < rank key"
    and "i < length (keys node) \<longrightarrow> rank key < rank (keys node ! i)"
    and "ins_entry u key r (inorder (children node ! i)) = (e, inorder c')" "well_shaped c'"
  shows "ins_entry u key r (inorder node) = (e, inorder (Node (keys node) (vals node) ((children node)[i := c']) (is_leaf node)))
     \<and> well_shaped (Node (keys node) (vals node) ((children node)[i := c']) (is_leaf node))"
proof -
  obtain ks vs cs where node: "node = Node ks vs cs False" using assms(2) by (cases node) auto
  from node_child[of ks vs cs i] assms(1,4) node obtain A B where
    AB: "\<And>c'. inorder (Node ks vs (cs[i := c']) False) = A @ inorder c' @ B"
    and A: "A = [] \<or> (0 < i \<and> fst (last A) = ks ! (i - 1))"
    and B: "B = [] \<or> (i < length ks \<and> fst (hd B) = ks ! i)" by auto
  from AB[of "cs ! i"] have io: "inorder node = A @ inorder (cs ! i) @ B"
    by (simp add: node)
  have pre: "\<forall>x\<in>set A. rank (fst x) < rank key"
  proof
    fix x assume x: "x \<in> set A"
    then have "A \<noteq> []" by auto
    with A assms(5) node have "rank (fst (last A)) < rank key" by auto
    moreover from sorted_entries_last[of A "inorder (cs ! i) @ B" x] assms(3) io x \<open>A \<noteq> []\<close>
    have "rank (fst x) \<le> rank (fst (last A))" by simp
    ultimately show "rank (fst x) < rank key" by simp
  qed
  have post: "B = [] \<or> rank key < rank (fst (hd B))"
    using B assms(6) node by auto
  have "ins_entry u key r (inorder node) = (e, A @ inorder c' @ B)"
    using io pre post assms(7) node by (simp add: ins_pre ins_post)
  moreover have "well_shaped (Node ks vs (cs[i := c']) False)"
    using assms(1,8) node by (auto dest!: set_update_subset_insert[THEN subsetD])
  ultimately show ?thesis using AB[of c'] node by simp
qed

lemma join_append:
  "length ls1 = Suc (length es1) \<Longrightarrow> join (ls1 @ ls2) (es1 @ e # es2) = join ls1 es1 @ e # join ls2 es2"
proof (induction ls1 es1 rule: join.induct)
  case (1 es)
  then show ?case by simp
next
  case (2 l ls)
  then show ?case by simp
next
  case (3 l ls e' es)
  then show ?case by simp
qed

lemma last_take_nth: "1 \<le> t \<Longrightarrow> t \<le> length xs \<Longrightarrow> last (take t xs) = xs ! (t - 1)"
  by (cases xs) (auto simp: last_conv_nth min_def)

lemma full_length:
  assumes "full t c"
  shows "length (keys c) = 2 * t - 1" "1 \<le> t"
  using assms by (auto simp: full_def)

lemma split_node_inorder:
  assumes "well_shaped (Node ck cv cc cl)" "length ck = 2 * t - 1" "1 \<le> t"
  shows "inorder (Node (butlast (take t ck)) (butlast (take t cv)) (if cl then cc else take t cc) cl)
           @ (last (take t ck), last (take t cv))
           # inorder (Node (drop t ck) (drop t cv) (if cl then [] else drop t cc) cl)
         = inorder (Node ck cv cc cl)"
    and "well_shaped (Node (butlast (take t ck)) (butlast (take t cv)) (if cl then cc else take t cc) cl)"
    and "well_shaped (Node (drop t ck) (drop t cv) (if cl then [] else drop t cc) cl)"
    and "take t ck \<noteq> []" "take t cv \<noteq> []"
    and "last (take t ck) = ck ! (t - 1)" "t - 1 < length ck"
proof -
  from assms have len: "length cv = length ck" "t - 1 < length ck" "t \<le> length ck"
    by auto
  have bk: "butlast (take t ck) = take (t - 1) ck" "butlast (take t cv) = take (t - 1) cv"
    using len by (simp_all add: butlast_take)
  have lk: "last (take t ck) = ck ! (t - 1)" "last (take t cv) = cv ! (t - 1)"
    using len assms(3) by (simp_all add: last_take_nth)
  have dk: "drop (t - 1) ck = ck ! (t - 1) # drop t ck" "drop (t - 1) cv = cv ! (t - 1) # drop t cv"
    using len assms(3) Cons_nth_drop_Suc[of "t - 1" ck] Cons_nth_drop_Suc[of "t - 1" cv] by simp_all
  have E: "zip ck cv = zip (take (t - 1) ck) (take (t - 1) cv) @ (ck ! (t - 1), cv ! (t - 1)) # zip (drop t ck) (drop t cv)"
  proof -
    have "zip ck cv = zip (take (t - 1) ck @ drop (t - 1) ck) (take (t - 1) cv @ drop (t - 1) cv)"
      by simp
    also have "\<dots> = zip (take (t - 1) ck) (take (t - 1) cv) @ zip (drop (t - 1) ck) (drop (t - 1) cv)"
      using len by (intro zip_append) simp
    finally show ?thesis using dk by simp
  qed
  show "take t ck \<noteq> []" "take t cv \<noteq> []" using len assms(3) by auto
  show "last (take t ck) = ck ! (t - 1)" by (rule lk)
  show "t - 1 < length ck" by (rule len)
  show "well_shaped (Node (butlast (take t ck)) (butlast (take t cv)) (if cl then cc else take t cc) cl)"
    using assms len by (auto simp: bk dest: in_set_takeD)
  show "well_shaped (Node (drop t ck) (drop t cv) (if cl then [] else drop t cc) cl)"
    using assms len by (auto dest: in_set_dropD)
  show "inorder (Node (butlast (take t ck)) (butlast (take t cv)) (if cl then cc else take t cc) cl)
           @ (last (take t ck), last (take t cv))
           # inorder (Node (drop t ck) (drop t cv) (if cl then [] else drop t cc) cl)
         = inorder (Node ck cv cc cl)"
  proof (cases cl)
    case True
    then show ?thesis using E by (simp add: bk lk)
  next
    case False
    let ?L = "map inorder cc"
    from assms False have lc: "length cc = Suc (length ck)" by simp
    have "join ?L (zip ck cv) = join (take t ?L @ drop t ?L)
            (zip (take (t - 1) ck) (take (t - 1) cv) @ (ck ! (t - 1), cv ! (t - 1)) # zip (drop t ck) (drop t cv))"
      using E by simp
    also have "\<dots> = join (take t ?L) (zip (take (t - 1) ck) (take (t - 1) cv))
                  @ (ck ! (t - 1), cv ! (t - 1)) # join (drop t ?L) (zip (drop t ck) (drop t cv))"
      using len lc assms(3) by (intro join_append) auto
    finally show ?thesis using False by (simp add: bk lk take_map drop_map)
  qed
qed

lemma insert_at_nth_before: "j < p \<Longrightarrow> p \<le> length xs \<Longrightarrow> insert_at p x xs ! j = xs ! j"
  by (simp add: insert_at_def nth_append)

lemma insert_at_nth_at: "p \<le> length xs \<Longrightarrow> insert_at p x xs ! p = x"
  by (simp add: insert_at_def nth_append)

lemma insert_at_nth_after: "p < length xs \<Longrightarrow> insert_at p x xs ! Suc p = xs ! p"
  by (simp add: insert_at_def nth_append)

lemma insert_at_length: "length (insert_at p x xs) = Suc (length xs)"
  by (simp add: insert_at_def)

lemma split_ok:
  assumes "well_shaped node" "\<not> is_leaf node" "p < length (children node)" "full t (children node ! p)"
  shows "\<exists>node' mk mv. split_child t node p = (None, node') \<and> well_shaped node' \<and> inorder node' = inorder node
     \<and> \<not> is_leaf node' \<and> keys node' = insert_at p mk (keys node)
     \<and> (mk, mv) \<in> set (inorder (children node ! p))"
proof -
  obtain ks vs cs where node: "node = Node ks vs cs False" using assms(2) by (cases node) auto
  obtain ck cv cc cl where child: "cs ! p = Node ck cv cc cl" by (cases "cs ! p")
  from assms(1,3) node have wfc: "well_shaped (cs ! p)" and lens: "length vs = length ks" "length cs = Suc (length ks)"
    by auto
  from full_length[OF assms(4)] node child have t: "length ck = 2 * t - 1" "1 \<le> t" by auto
  note sn = split_node_inorder[OF wfc[unfolded child] t]
  define left where "left = Node (butlast (take t ck)) (butlast (take t cv)) (if cl then cc else take t cc) cl"
  define right where "right = Node (drop t ck) (drop t cv) (if cl then [] else drop t cc) cl"
  define mk where "mk = last (take t ck)"
  define mv where "mv = last (take t cv)"
  define cs' where "cs' = insert_at (p + 1) right (cs[p := left])"
  define node' where "node' = Node (insert_at p mk ks) (insert_at p mv vs) cs' False"
  have sc: "split_child t node p = (None, node')"
    using assms(3) node child sn(4,5)
    by (simp add: split_child_def Let_def node'_def cs'_def left_def right_def mk_def mv_def)
  have cs': "cs' = take p cs @ left # right # drop (Suc p) cs"
    using assms(3) node by (simp add: cs'_def insert_at_def upd_conv_take_nth_drop)
  from assms(1) node have allwf: "\<forall>c\<in>set cs. well_shaped c" by simp
  have wl: "well_shaped left" "well_shaped right" using sn(2,3) by (simp_all only: left_def right_def)
  have "\<forall>c\<in>set cs'. well_shaped c"
    unfolding cs' using allwf wl by (auto simp del: well_shaped.simps dest: in_set_takeD in_set_dropD)
  moreover have "length cs' = Suc (length (insert_at p mk ks))" "length (insert_at p mv vs) = length (insert_at p mk ks)"
    unfolding cs' using assms(3) node lens by (simp_all add: insert_at_def)
  ultimately have well_shaped': "well_shaped node'"
    unfolding node'_def by (subst well_shaped.simps) (simp del: well_shaped.simps)
  let ?L = "map inorder cs" and ?E = "zip ks vs"
  have p: "p \<le> length ks" using assms(3) node lens by simp
  have E': "zip (insert_at p mk ks) (insert_at p mv vs) = take p ?E @ (mk, mv) # drop p ?E"
    using p lens by (simp add: insert_at_def take_zip drop_zip)
  have L': "map inorder cs' = take p ?L @ inorder left # inorder right # drop (Suc p) ?L"
    unfolding cs' by (simp add: take_map drop_map del: inorder.simps)
  have mid: "inorder left @ (mk, mv) # inorder right = ?L ! p"
    using sn(1) child assms(3) node by (simp only: left_def right_def mk_def mv_def nth_map btree.sel)
  have "inorder node' = join (map inorder cs') (zip (insert_at p mk ks) (insert_at p mv vs))"
    by (simp add: node'_def)
  also have "\<dots> = join (take p ?L @ inorder left # inorder right # drop (Suc p) ?L)
                              (take p ?E @ (mk, mv) # drop p ?E)"
    by (simp only: L' E')
  also have "\<dots> = pairs (take p ?L) (take p ?E)
                 @ join (inorder left # inorder right # drop (Suc p) ?L) ((mk, mv) # drop p ?E)"
    using p lens by (intro join_prefix) simp
  also have "\<dots> = pairs (take p ?L) (take p ?E)
                 @ (inorder left @ (mk, mv) # inorder right) @ join ([] # drop (Suc p) ?L) (drop p ?E)"
    using join_Cons_left[of "inorder right" "drop (Suc p) ?L" "drop p ?E"]
    by (simp del: inorder.simps)
  also have "\<dots> = pairs (take p ?L) (take p ?E) @ (?L ! p) @ join ([] # drop (Suc p) ?L) (drop p ?E)"
    by (simp only: mid)
  also have "\<dots> = join ?L ?E"
    using join_child[of ?L ?E p] lens p by simp
  finally have io: "inorder node' = inorder node" using node by simp
  have "(mk, mv) \<in> set (?L ! p)"
    by (subst mid[symmetric]) simp
  then have mem: "(mk, mv) \<in> set (inorder (children node ! p))"
    using assms(3) node by simp
  have "\<not> is_leaf node'" "keys node' = insert_at p mk (keys node)"
    by (simp_all add: node'_def node)
  with sc well_shaped' io mem show ?thesis by blast
qed

lemma keys_in_inorder:
  assumes "well_shaped node" "i < length (keys node)"
  shows "(keys node ! i, vals node ! i) \<in> set (inorder node)"
proof -
  obtain ks vs cs l where node: "node = Node ks vs cs l" by (cases node)
  from node_entry[of ks vs cs l i] assms node obtain A B where
    "\<And>v'. inorder (Node ks (vs[i := v']) cs l) = A @ (ks ! i, v') # B" by auto
  from this[of "vs ! i"] node show ?thesis by simp
qed

lemma child_inorder:
  assumes "well_shaped node" "\<not> is_leaf node" "i < length (children node)"
  shows "set (inorder (children node ! i)) \<subseteq> set (inorder node)"
    and "sorted_entries (inorder node) \<Longrightarrow> sorted_entries (inorder (children node ! i))"
proof -
  obtain ks vs cs where node: "node = Node ks vs cs False" using assms(2) by (cases node) auto
  from assms(1,3) node have "i \<le> length ks" by simp
  from node_child[of ks vs cs i] assms(1) node this obtain A B where
    AB: "\<And>c'. inorder (Node ks vs (cs[i := c']) False) = A @ inorder c' @ B" by auto
  from AB[of "cs ! i"] have io: "inorder node = A @ inorder (children node ! i) @ B"
    by (simp add: node)
  then show "set (inorder (children node ! i)) \<subseteq> set (inorder node)" by auto
  show "sorted_entries (inorder (children node ! i))" if "sorted_entries (inorder node)"
    using that io sorted_entries_mid by metis
qed

lemma leaf_keys_sorted:
  assumes "well_shaped node" "is_leaf node" "sorted_entries (inorder node)"
  shows "sorted_wrt (<) (map rank (keys node))"
proof -
  obtain ks vs cs where node: "node = Node ks vs cs True" using assms(2) by (cases node) auto
  with assms(1) have len: "length ks = length vs" by simp
  have "map rank (map fst (zip ks vs)) = map rank ks"
    by (simp only: map_fst_zip[OF len])
  then have "map (\<lambda>e. rank (fst e)) (zip ks vs) = map rank ks"
    by (simp add: comp_def)
  with assms(3) node show ?thesis by (simp add: sorted_entries_def)
qed

lemma inf_found:
  "found_at key (keys node) (insert_pos key (keys node)) \<Longrightarrow>
   insert_non_full t u node key r =
     (case add_row_id u (vals node) (insert_pos key (keys node) - 1) r of
        (e, vs) \<Rightarrow> (e, Node (keys node) vs (children node) (is_leaf node)))"
  by (subst insert_non_full.simps) (simp add: Let_def)

lemma inf_leaf:
  "\<not> found_at key (keys node) (insert_pos key (keys node)) \<Longrightarrow> is_leaf node \<Longrightarrow>
   insert_non_full t u node key r =
     (None, Node (insert_at (insert_pos key (keys node)) key (keys node))
              (insert_at (insert_pos key (keys node)) [r] (vals node)) (children node) (is_leaf node))"
  by (subst insert_non_full.simps) (simp add: Let_def)

lemma inf_descend:
  "\<not> found_at key (keys node) (insert_pos key (keys node)) \<Longrightarrow> \<not> is_leaf node \<Longrightarrow>
   insert_pos key (keys node) < length (children node) \<Longrightarrow>
   \<not> full t (children node ! insert_pos key (keys node)) \<Longrightarrow>
   insert_non_full t u node key r =
     (case insert_non_full t u (children node ! insert_pos key (keys node)) key r of
        (e, c) \<Rightarrow> (e, Node (keys node) (vals node) ((children node)[insert_pos key (keys node) := c]) (is_leaf node)))"
  by (subst insert_non_full.simps) (simp add: Let_def)

lemma inf_split_found:
  "\<not> found_at key (keys node) (insert_pos key (keys node)) \<Longrightarrow> \<not> is_leaf node \<Longrightarrow>
   insert_pos key (keys node) < length (children node) \<Longrightarrow>
   full t (children node ! insert_pos key (keys node)) \<Longrightarrow>
   split_child t node (insert_pos key (keys node)) = (None, n1) \<Longrightarrow>
   compare_keys key (keys n1 ! insert_pos key (keys node)) = 0 \<Longrightarrow>
   insert_non_full t u node key r =
     (case add_row_id u (vals n1) (insert_pos key (keys node)) r of
        (e, vs) \<Rightarrow> (e, Node (keys n1) vs (children n1) (is_leaf n1)))"
  by (subst insert_non_full.simps) (simp add: Let_def)

lemma inf_split_descend:
  "\<not> found_at key (keys node) (insert_pos key (keys node)) \<Longrightarrow> \<not> is_leaf node \<Longrightarrow>
   insert_pos key (keys node) < length (children node) \<Longrightarrow>
   full t (children node ! insert_pos key (keys node)) \<Longrightarrow>
   split_child t node (insert_pos key (keys node)) = (None, n1) \<Longrightarrow>
   compare_keys key (keys n1 ! insert_pos key (keys node)) \<noteq> 0 \<Longrightarrow>
   i = (if compare_keys key (keys n1 ! insert_pos key (keys node)) > 0
        then insert_pos key (keys node) + 1 else insert_pos key (keys node)) \<Longrightarrow>
   i < length (children n1) \<Longrightarrow>
   insert_non_full t u node key r =
     (case insert_non_full t u (children n1 ! i) key r of
        (e, c) \<Rightarrow> (e, Node (keys n1) (vals n1) ((children n1)[i := c]) (is_leaf n1)))"
  by (subst insert_non_full.simps) (simp add: Let_def)

lemma insert_non_full_correct:
  assumes S: "like_typed S" "key \<in> S"
  shows "well_shaped node \<Longrightarrow> sorted_entries (inorder node) \<Longrightarrow> fst ` set (inorder node) \<subseteq> S \<Longrightarrow>
         insert_non_full t u node key r = (e, node') \<Longrightarrow>
         ins_entry u key r (inorder node) = (e, inorder node') \<and> well_shaped node'"
proof (induction node arbitrary: e node' rule: measure_induct_rule[of size])
  case (less node)
  note wfn = less.prems(1) and srt = less.prems(2) and inS = less.prems(3) and res = less.prems(4)
  define pos where "pos = insert_pos key (keys node)"
  have keyS: "keys node ! i \<in> S" if "i < length (keys node)" for i
    using keys_in_inorder[OF wfn that] inS by force
  have P1: "pos \<le> length (keys node)" by (simp add: pos_def insert_pos_le)
  have P2: "rank key < rank k" if "k \<in> set (drop pos (keys node))" for k
  proof -
    from that have "k \<in> set (keys node)" by (rule in_set_dropD)
    then have "k \<in> S" using keyS by (auto simp: in_set_conv_nth)
    with insert_pos_after[of k key "keys node"] that S show ?thesis
      by (simp add: pos_def lt_rank[OF S(1)])
  qed
  have P3: "rank (keys node ! (pos - 1)) \<le> rank key" if "0 < pos"
  proof -
    from that P1 have k: "keys node ! (pos - 1) \<in> S" by (intro keyS) simp
    have n: "\<not> compare_keys key (keys node ! (pos - 1)) < 0"
      using insert_pos_before[of key "keys node"] that unfolding pos_def by blast
    have "(compare_keys key (keys node ! (pos - 1)) < 0) = (rank key < rank (keys node ! (pos - 1)))"
      using lt_rank[OF S(1) S(2) k] .
    with n show ?thesis by simp
  qed
  have P4: "found_at key (keys node) pos = (0 < pos \<and> rank (keys node ! (pos - 1)) = rank key)"
  proof (cases "0 < pos")
    case True
    with P1 have k: "keys node ! (pos - 1) \<in> S" by (intro keyS) simp
    have "(compare_keys key (keys node ! (pos - 1)) = 0) = (rank key = rank (keys node ! (pos - 1)))"
      using eq_rank[OF S(1) S(2) k] .
    with True show ?thesis by (auto simp: found_at_def)
  next
    case False
    then show ?thesis by (simp add: found_at_def)
  qed
  show ?case
  proof (cases "found_at key (keys node) pos")
    case True
    with P4 P1 have i: "pos - 1 < length (keys node)" "rank (keys node ! (pos - 1)) = rank key"
      by auto
    have eq: "insert_non_full t u node key r =
        (case add_row_id u (vals node) (pos - 1) r of
           (e, vs) \<Rightarrow> (e, Node (keys node) vs (children node) (is_leaf node)))"
      using inf_found[OF True[unfolded pos_def], of t u r] by (simp only: pos_def)
    obtain e1 vs' where a1: "add_row_id u (vals node) (pos - 1) r = (e1, vs')"
      by (cases "add_row_id u (vals node) (pos - 1) r")
    with eq res have a: "add_row_id u (vals node) (pos - 1) r = (e, vs')"
      and n': "node' = Node (keys node) vs' (children node) (is_leaf node)"
      by simp_all
    from entry_case[OF wfn srt i a] show ?thesis unfolding n' .
  next
    case nf: False
    with P3 P4 have P3': "0 < pos \<Longrightarrow> rank (keys node ! (pos - 1)) < rank key" by auto
    show ?thesis
    proof (cases "is_leaf node")
      case True
      have "insert_non_full t u node key r =
          (None, Node (insert_at pos key (keys node)) (insert_at pos [r] (vals node)) (children node) (is_leaf node))"
        using inf_leaf[OF nf[unfolded pos_def] True, of t u r] by (simp only: pos_def)
      with res have e: "e = None" and n': "node' = Node (insert_at pos key (keys node)) (insert_at pos [r] (vals node)) (children node) (is_leaf node)"
        by simp_all
      have before: "rank k < rank key" if "k \<in> set (take pos (keys node))" for k
      proof -
        from that obtain j where j: "j < pos" "k = keys node ! j"
          using P1 by (auto simp: in_set_conv_nth)
        then have pos: "0 < pos" by simp
        have "rank (keys node ! j) \<le> rank (keys node ! (pos - 1))"
        proof (cases "j = pos - 1")
          case True
          then show ?thesis by simp
        next
          case False
          with j have "j < pos - 1" by simp
          moreover have "pos - 1 < length (map rank (keys node))" using pos P1 by simp
          ultimately have "map rank (keys node) ! j < map rank (keys node) ! (pos - 1)"
            using leaf_keys_sorted[OF wfn True srt] sorted_wrt_nth_less by blast
          with j P1 pos show ?thesis by simp
        qed
        with P3'[OF pos] j show ?thesis by simp
      qed
      have b1: "\<forall>k\<in>set (take pos (keys node)). rank k < rank key" using before by blast
      have b2: "\<forall>k\<in>set (drop pos (keys node)). rank key < rank k" using P2 by blast
      from leaf_case[OF wfn True srt P1 b1 b2, of u r] show ?thesis unfolding n' e .
    next
      case False
      with wfn have lc: "length (children node) = Suc (length (keys node))"
        by (cases node) auto
      with P1 have plt: "pos < length (children node)" by simp
      show ?thesis
      proof (cases "full t (children node ! pos)")
        case notfull: False
        have eq: "insert_non_full t u node key r =
            (case insert_non_full t u (children node ! pos) key r of
               (e, c) \<Rightarrow> (e, Node (keys node) (vals node) ((children node)[pos := c]) (is_leaf node)))"
          using inf_descend[OF nf[unfolded pos_def] False plt[unfolded pos_def] notfull[unfolded pos_def], of u r]
          by (simp only: pos_def)
        obtain e1 c where c1: "insert_non_full t u (children node ! pos) key r = (e1, c)"
          by (cases "insert_non_full t u (children node ! pos) key r")
        with eq res have c: "insert_non_full t u (children node ! pos) key r = (e, c)"
          and n': "node' = Node (keys node) (vals node) ((children node)[pos := c]) (is_leaf node)"
          by simp_all
        have sz: "size (children node ! pos) < size node"
          using plt by (cases node) (auto simp: size_nth_less)
        have wfc: "well_shaped (children node ! pos)" using wfn plt by (cases node) auto
        note ci = child_inorder[OF wfn False plt]
        have "fst ` set (inorder (children node ! pos)) \<subseteq> S" using ci(1) inS by auto
        from less.IH[OF sz wfc ci(2)[OF srt] this c]
        have ih: "ins_entry u key r (inorder (children node ! pos)) = (e, inorder c)" "well_shaped c" by auto
        have hi: "pos < length (keys node) \<longrightarrow> rank key < rank (keys node ! pos)"
        proof
          assume p: "pos < length (keys node)"
          then have "keys node ! pos \<in> set (drop pos (keys node))"
            by (metis Cons_nth_drop_Suc list.set_intros(1))
          then show "rank key < rank (keys node ! pos)" by (rule P2)
        qed
        have lo: "0 < pos \<longrightarrow> rank (keys node ! (pos - 1)) < rank key" using P3' by blast
        show ?thesis unfolding n' by (rule descend_case[OF wfn False srt P1 lo hi ih])
      next
        case isfull: True
        from split_ok[OF wfn False plt isfull] obtain n1 mk mv where
          sc: "split_child t node pos = (None, n1)" and wf1: "well_shaped n1" and io1: "inorder n1 = inorder node"
          and nl1: "\<not> is_leaf n1" and k1: "keys n1 = insert_at pos mk (keys node)"
          and mem: "(mk, mv) \<in> set (inorder (children node ! pos))" by blast
        have mkS: "mk \<in> S" using mem child_inorder(1)[OF wfn False plt] inS by force
        have kp: "keys n1 ! pos = mk" using k1 P1 by (simp add: insert_at_nth_at)
        have len1: "length (keys n1) = Suc (length (keys node))" using k1 by (simp add: insert_at_length)
        from wf1 nl1 have lc1: "length (children n1) = Suc (length (keys n1))" by (cases n1) auto
        have srt1: "sorted_entries (inorder n1)" using srt io1 by simp
        have inS1: "fst ` set (inorder n1) \<subseteq> S" using inS io1 by simp
        show ?thesis
        proof (cases "compare_keys key mk = 0")
          case True
          have eq: "insert_non_full t u node key r =
              (case add_row_id u (vals n1) pos r of
                 (e, vs) \<Rightarrow> (e, Node (keys n1) vs (children n1) (is_leaf n1)))"
            using inf_split_found[OF nf[unfolded pos_def] False plt[unfolded pos_def] isfull[unfolded pos_def]
                sc[unfolded pos_def], of u r] True kp
            by (simp only: pos_def)
          obtain e1 vs' where a1: "add_row_id u (vals n1) pos r = (e1, vs')"
            by (cases "add_row_id u (vals n1) pos r")
          with eq res have a: "add_row_id u (vals n1) pos r = (e, vs')"
            and n': "node' = Node (keys n1) vs' (children n1) (is_leaf n1)"
            by simp_all
          have "rank (keys n1 ! pos) = rank key"
            using True kp S mkS by (simp add: eq_rank[OF S(1)])
          moreover have "pos < length (keys n1)" using len1 P1 by simp
          ultimately show ?thesis using entry_case[OF wf1 srt1 _ _ a] unfolding n' io1 by blast
        next
          case neq: False
          define i where "i = (if compare_keys key mk > 0 then pos + 1 else pos)"
          have ilt: "i < length (children n1)" using lc1 len1 P1 by (simp add: i_def)
          have neq': "compare_keys key (keys n1 ! pos) \<noteq> 0" using neq kp by simp
          have i': "i = (if compare_keys key (keys n1 ! pos) > 0 then pos + 1 else pos)"
            using kp by (simp add: i_def)
          have eq: "insert_non_full t u node key r =
              (case insert_non_full t u (children n1 ! i) key r of
                 (e, c) \<Rightarrow> (e, Node (keys n1) (vals n1) ((children n1)[i := c]) (is_leaf n1)))"
            using inf_split_descend[OF nf[unfolded pos_def] False plt[unfolded pos_def] isfull[unfolded pos_def]
                sc[unfolded pos_def] neq'[unfolded pos_def] i'[unfolded pos_def] ilt, of u r] .
          obtain e1 c where c1: "insert_non_full t u (children n1 ! i) key r = (e1, c)"
            by (cases "insert_non_full t u (children n1 ! i) key r")
          with eq res have c: "insert_non_full t u (children n1 ! i) key r = (e, c)"
            and n': "node' = Node (keys n1) (vals n1) ((children n1)[i := c]) (is_leaf n1)"
            by simp_all
          have sz: "size (children n1 ! i) < size node"
            using split_child_size_nth[OF sc[symmetric] ilt] .
          have wfc: "well_shaped (children n1 ! i)" using wf1 ilt by (cases n1) auto
          note ci = child_inorder[OF wf1 nl1 ilt]
          have "fst ` set (inorder (children n1 ! i)) \<subseteq> S" using ci(1) inS1 by auto
          from less.IH[OF sz wfc ci(2)[OF srt1] this c]
          have ih: "ins_entry u key r (inorder (children n1 ! i)) = (e, inorder c)" "well_shaped c" by auto
          have ile: "i \<le> length (keys n1)" using ilt lc1 by simp
          have lo: "0 < i \<longrightarrow> rank (keys n1 ! (i - 1)) < rank key"
          proof (cases "compare_keys key mk > 0")
            case True
            then have "rank mk < rank key" using S mkS by (simp add: gt_rank[OF S(1)])
            with True kp show ?thesis by (simp add: i_def)
          next
            case False
            then have "i = pos" by (simp add: i_def)
            moreover have "keys n1 ! (pos - 1) = keys node ! (pos - 1)" if "0 < pos"
              using that k1 P1 by (simp add: insert_at_nth_before)
            ultimately show ?thesis using P3' by auto
          qed
          have hi: "i < length (keys n1) \<longrightarrow> rank key < rank (keys n1 ! i)"
          proof (cases "compare_keys key mk > 0")
            case True
            then have i: "i = Suc pos" by (simp add: i_def)
            show ?thesis
            proof
              assume "i < length (keys n1)"
              with i len1 have p: "pos < length (keys node)" by simp
              then have "keys n1 ! i = keys node ! pos" using k1 i by (simp add: insert_at_nth_after)
              moreover have "keys node ! pos \<in> set (drop pos (keys node))"
                using p by (metis Cons_nth_drop_Suc list.set_intros(1))
              ultimately show "rank key < rank (keys n1 ! i)" using P2 by simp
            qed
          next
            case False
            with neq have "compare_keys key mk < 0" by simp
            then have "rank key < rank mk" using S mkS by (simp add: lt_rank[OF S(1)])
            with False kp show ?thesis by (simp add: i_def)
          qed
          from descend_case[OF wf1 nl1 srt1 ile lo hi ih] show ?thesis unfolding n' io1 .
        qed
      qed
    qed
  qed
qed

lemma btree_insert_correct:
  assumes S: "like_typed S" "key \<in> S"
    and "well_shaped (root idx)" "sorted_entries (entries idx)" "fst ` set (entries idx) \<subseteq> S"
    and "btree_insert idx key r = (e, idx')"
  shows "ins_entry (unique_index idx) key r (entries idx) = (e, entries idx')"
    and "well_shaped (root idx')" and "unique_index idx' = unique_index idx" and "order idx' = order idx"
proof -
  have "ins_entry (unique_index idx) key r (entries idx) = (e, entries idx') \<and> well_shaped (root idx')
        \<and> unique_index idx' = unique_index idx \<and> order idx' = order idx"
  proof (cases "full (order idx) (root idx)")
    case False
    obtain e1 r1 where r1: "insert_non_full (order idx) (unique_index idx) (root idx) key r = (e1, r1)"
      by (cases "insert_non_full (order idx) (unique_index idx) (root idx) key r")
    with False assms(6) have eq: "e = e1" "idx' = idx\<lparr>root := r1\<rparr>"
      by (simp_all add: btree_insert_def)
    from insert_non_full_correct[OF S assms(3) assms(4)[unfolded entries_def] assms(5)[unfolded entries_def] r1]
    show ?thesis using eq by (simp add: entries_def)
  next
    case True
    let ?nr = "Node [] [] [root idx] False"
    have wfnr: "well_shaped ?nr" using assms(3) by simp
    have ionr: "inorder ?nr = inorder (root idx)" by simp
    from split_ok[of ?nr 0 "order idx"] wfnr True obtain n1 where
      sc: "split_child (order idx) ?nr 0 = (None, n1)" and wf1: "well_shaped n1" and io1: "inorder n1 = inorder ?nr"
      by auto
    obtain e1 r1 where r1: "insert_non_full (order idx) (unique_index idx) n1 key r = (e1, r1)"
      by (cases "insert_non_full (order idx) (unique_index idx) n1 key r")
    with True sc assms(6) have eq: "e = e1" "idx' = idx\<lparr>root := r1\<rparr>"
      by (simp_all add: btree_insert_def)
    have s1: "sorted_entries (inorder n1)" "fst ` set (inorder n1) \<subseteq> S"
      using assms(4,5) io1 ionr by (simp_all add: entries_def)
    from insert_non_full_correct[OF S wf1 s1 r1]
    show ?thesis using eq io1 ionr by (simp add: entries_def)
  qed
  then show "ins_entry (unique_index idx) key r (entries idx) = (e, entries idx')"
    and "well_shaped (root idx')" and "unique_index idx' = unique_index idx" and "order idx' = order idx"
    by blast+
qed

lemma shrunk_refl: "shrunk es es"
  by (simp add: shrunk_def list_all2_refl split_beta)

lemma shrunk_append: "shrunk a a' \<Longrightarrow> shrunk b b' \<Longrightarrow> shrunk (a @ b) (a' @ b')"
  by (simp add: shrunk_def list_all2_appendI)

lemma delete_node_props:
  "well_shaped node \<Longrightarrow> delete_node node key r = Inr (node', b) \<Longrightarrow> well_shaped node' \<and> shrunk (inorder node') (inorder node)"
proof (induction node arbitrary: node' b rule: measure_induct_rule[of size])
  case (less node)
  obtain ks vs cs l where node: "node = Node ks vs cs l" by (cases node)
  define i where "i = search_pos key (keys node)"
  note res = less.prems(2)[unfolded delete_node.simps[of node key r], folded i_def, unfolded Let_def]
  show ?case
  proof (cases "i < length (keys node) \<and> compare_keys key (keys node ! i) = 0")
    case True
    show ?thesis
    proof (cases "r \<in> set (vals node ! i)")
      case rin: True
      from res True rin have n': "node' = Node ks (vs[i := remove1 r (vs ! i)]) cs l"
        by (auto simp: node split: if_splits)
      from node_entry[of ks vs cs l i] less.prems(1) True node obtain A B where
        AB: "\<And>v'. inorder (Node ks (vs[i := v']) cs l) = A @ (ks ! i, v') # B" by auto
      have "shrunk (A @ (ks ! i, remove1 r (vs ! i)) # B) (A @ (ks ! i, vs ! i) # B)"
        using rin node by (intro shrunk_append shrunk_refl) (simp add: shrunk_def list_all2_refl split_beta length_remove1)
      with AB[of "remove1 r (vs ! i)"] AB[of "vs ! i"] n' node less.prems(1) show ?thesis by simp
    next
      case False
      with res True have "node' = node" by (auto split: if_splits)
      with less.prems(1) show ?thesis by (simp add: shrunk_refl)
    qed
  next
    case nf: False
    show ?thesis
    proof (cases "is_leaf node")
      case True
      with res nf have "node' = node" by (auto split: if_splits)
      with less.prems(1) show ?thesis by (simp add: shrunk_refl)
    next
      case False
      with res nf have ilt: "i < length (children node)" by (auto split: if_splits)
      with res nf False obtain c where c: "delete_node (children node ! i) key r = Inr (c, b)"
        and n': "node' = Node ks vs (cs[i := c]) l"
        by (auto simp: node split: if_splits sum.splits)
      have sz: "size (children node ! i) < size node"
        using ilt by (cases node) (auto simp: size_nth_less)
      have wfc: "well_shaped (children node ! i)" using less.prems(1) ilt by (cases node) auto
      from less.IH[OF sz wfc c] have ih: "well_shaped c" "shrunk (inorder c) (inorder (children node ! i))" by auto
      from less.prems(1) False ilt node have ile: "i \<le> length ks" and l: "l = False" by auto
      from node_child[of ks vs cs i] less.prems(1) node ile l obtain A B where
        AB: "\<And>c'. inorder (Node ks vs (cs[i := c']) False) = A @ inorder c' @ B" by auto
      have "shrunk (A @ inorder c @ B) (A @ inorder (cs ! i) @ B)"
        using ih(2) node by (intro shrunk_append shrunk_refl) simp
      moreover have "well_shaped (Node ks vs (cs[i := c]) l)"
        using less.prems(1) ih(1) node by (auto dest!: set_update_subset_insert[THEN subsetD])
      ultimately show ?thesis using AB[of c] AB[of "cs ! i"] n' node l by simp
    qed
  qed
qed

lemma shrunk_keys: "shrunk es' es \<Longrightarrow> map fst es' = map fst es"
  unfolding shrunk_def by (induction es' es rule: list_all2_induct) auto

lemma shrunk_sorted: "shrunk es' es \<Longrightarrow> sorted_entries es \<Longrightarrow> sorted_entries es'"
proof -
  assume s: "shrunk es' es" and "sorted_entries es"
  have "map (\<lambda>e. rank (fst e)) es' = map rank (map fst es')" by (simp add: comp_def)
  also have "\<dots> = map rank (map fst es)" using shrunk_keys[OF s] by simp
  also have "\<dots> = map (\<lambda>e. rank (fst e)) es" by (simp add: comp_def)
  finally show ?thesis using \<open>sorted_entries es\<close> by (simp add: sorted_entries_def)
qed

lemma shrunk_short:
  "shrunk es' es \<Longrightarrow> \<forall>(k, rs)\<in>set es. length rs \<le> n \<Longrightarrow> \<forall>(k, rs)\<in>set es'. length rs \<le> n"
  unfolding shrunk_def by (induction es' es rule: list_all2_induct) auto

lemma index_inv_step:
  assumes "like_typed S" "op_key op \<in> S" "index_inv S idx"
  shows "index_inv S (index_step idx op) \<and> unique_index (index_step idx op) = unique_index idx
         \<and> order (index_step idx op) = order idx"
proof (cases op)
  case (IndexInsert key r)
  obtain e idx' where r: "btree_insert idx key r = (e, idx')" by (cases "btree_insert idx key r")
  from assms IndexInsert have k: "key \<in> S" by simp
  note c = btree_insert_correct[OF assms(1) k _ _ _ r]
  from assms(3) have i: "well_shaped (root idx)" "sorted_entries (entries idx)" "fst ` set (entries idx) \<subseteq> S"
    by (simp_all add: index_inv_def)
  from c(1)[OF i] ins_sorted[OF i(2)] ins_keys have "sorted_entries (entries idx')" "fst ` set (entries idx') \<subseteq> insert key (fst ` set (entries idx))"
    by blast+
  moreover from this(2) i(3) k have "fst ` set (entries idx') \<subseteq> S" by blast
  ultimately show ?thesis using c(2,3,4)[OF i] r IndexInsert
    by (simp add: index_inv_def)
next
  case (IndexDelete key r)
  show ?thesis
  proof (cases "delete_node (root idx) key r")
    case (Inl e)
    with IndexDelete assms(3) show ?thesis by (simp add: btree_delete_def)
  next
    case (Inr p)
    obtain n b where p: "p = (n, b)" by (cases p)
    from assms(3) have i: "well_shaped (root idx)" "sorted_entries (entries idx)" "fst ` set (entries idx) \<subseteq> S"
      by (simp_all add: index_inv_def)
    from delete_node_props[OF i(1) Inr[unfolded p]] have d: "well_shaped n" "shrunk (inorder n) (inorder (root idx))"
      by auto
    have "fst ` set (inorder n) = fst ` set (inorder (root idx))"
      using shrunk_keys[OF d(2)] by (metis list.set_map)
    with d shrunk_sorted[OF d(2)] i Inr p IndexDelete show ?thesis
      by (simp add: index_inv_def btree_delete_def entries_def)
  qed
qed

lemma index_inv_run:
  "like_typed S \<Longrightarrow> op_key ` set ops \<subseteq> S \<Longrightarrow> index_inv S idx \<Longrightarrow>
   index_inv S (foldl index_step idx ops) \<and> unique_index (foldl index_step idx ops) = unique_index idx
   \<and> order (foldl index_step idx ops) = order idx"
proof (induction ops arbitrary: idx)
  case Nil
  then show ?case by simp
next
  case (Cons op ops)
  from Cons.prems have "op_key op \<in> S" "op_key ` set ops \<subseteq> S" by auto
  from index_inv_step[OF Cons.prems(1) this(1) Cons.prems(3)] Cons.IH[OF Cons.prems(1) this(2)]
  show ?case by simp
qed

lemma new_index_inv: "index_inv S (new_index t uniq)"
  by (simp add: index_inv_def new_index_def entries_def sorted_entries_def)

lemma ins_entry_present:
  "sorted_entries es \<Longrightarrow> (k, rs) \<in> set es \<Longrightarrow> rank key = rank k \<Longrightarrow> r \<in> set rs \<Longrightarrow>
   ins_entry u key r es = (None, es)"
proof (induction es)
  case Nil
  then show ?case by simp
next
  case (Cons a es)
  obtain k' rs' where a: "a = (k', rs')" by (cases a)
  show ?case
  proof (cases "(k, rs) = a")
    case True
    with Cons.prems a show ?thesis by simp
  next
    case False
    with Cons.prems(2) have mem: "(k, rs) \<in> set es" by simp
    with Cons.prems(1) a have lt: "rank k' < rank k" by (force simp: sorted_entries_def)
    from lt Cons.prems(3) have n1: "\<not> rank key < rank k'" by (metis less_asym)
    from lt Cons.prems(3) have n2: "rank key \<noteq> rank k'" by (metis less_irrefl)
    from Cons.prems(1) have "sorted_entries es" by (simp add: sorted_entries_def)
    from Cons.IH[OF this mem Cons.prems(3,4)] n1 n2 a show ?thesis by simp
  qed
qed

lemma ins_entry_conflict:
  "sorted_entries es \<Longrightarrow> (k, rs) \<in> set es \<Longrightarrow> rank key = rank k \<Longrightarrow> r \<notin> set rs \<Longrightarrow>
   ins_entry True key r es = (Some (ValueError ''Duplicate key''), es)"
proof (induction es)
  case Nil
  then show ?case by simp
next
  case (Cons a es)
  obtain k' rs' where a: "a = (k', rs')" by (cases a)
  show ?case
  proof (cases "(k, rs) = a")
    case True
    with Cons.prems a show ?thesis by simp
  next
    case False
    with Cons.prems(2) have mem: "(k, rs) \<in> set es" by simp
    with Cons.prems(1) a have lt: "rank k' < rank k" by (force simp: sorted_entries_def)
    from lt Cons.prems(3) have n1: "\<not> rank key < rank k'" by (metis less_asym)
    from lt Cons.prems(3) have n2: "rank key \<noteq> rank k'" by (metis less_irrefl)
    from Cons.prems(1) have "sorted_entries es" by (simp add: sorted_entries_def)
    from Cons.IH[OF this mem Cons.prems(3,4)] n1 n2 a show ?thesis by simp
  qed
qed

lemma add_row_id_unique: "add_row_id True vs i r = (e, vs') \<Longrightarrow> vs' = vs"
  by (auto simp: add_row_id_def split: if_splits)

lemma short_lists_sel:
  "short_lists node = ((\<forall>rs\<in>set (vals node). length rs \<le> 1) \<and> (\<forall>c\<in>set (children node). short_lists c))"
  by (cases node) simp

lemma set_insert_at: "set (insert_at i x xs) = insert x (set xs)"
  by (auto simp: insert_at_def dest: in_set_takeD in_set_dropD)
     (metis append_take_drop_id Un_iff set_append)

lemma split_child_short:
  assumes "short_lists parent" "split_child t parent i = (e, p')"
  shows "short_lists p'"
proof (cases "length (children parent) \<le> i")
  case True
  with assms show ?thesis by (simp add: split_child_def)
next
  case False
  define child where "child = children parent ! i"
  from False assms(1) have sc: "short_lists child"
    by (simp add: child_def short_lists_sel[of parent])
  define new_node where "new_node = Node (drop t (keys child)) (drop t (vals child))
                          (if is_leaf child then [] else drop t (children child)) (is_leaf child)"
  define cchildren where "cchildren = (if is_leaf child then children child else take t (children child))"
  have s_new: "short_lists new_node"
    using sc by (auto simp: new_node_def short_lists_sel[of child] dest: in_set_dropD)
  have s_cc: "\<forall>c\<in>set cchildren. short_lists c"
    using sc by (auto simp: cchildren_def short_lists_sel[of child] dest: in_set_takeD)
  have s_cv: "\<forall>rs\<in>set (take t (vals child)). length rs \<le> 1"
    using sc by (auto simp: short_lists_sel[of child] dest: in_set_takeD)
  have s_left: "short_lists (Node ks vs cchildren l)" if "set vs \<subseteq> set (take t (vals child))" for ks vs l
    using that s_cc s_cv by auto
  have s_pc: "\<forall>c\<in>set (insert_at (i + 1) new_node ((children parent)[i := c'])). short_lists c" if "short_lists c'" for c'
    using that s_new assms(1)
    by (auto simp: set_insert_at short_lists_sel[of parent] dest!: set_update_subset_insert[THEN subsetD])
  have pv: "\<forall>rs\<in>set (vals parent). length rs \<le> 1"
    using assms(1) by (simp add: short_lists_sel[of parent])
  have lastv: "take t (vals child) \<noteq> [] \<Longrightarrow> length (last (take t (vals child))) \<le> 1"
    using s_cv last_in_set by blast
  have bl: "set (butlast (take t (vals child))) \<subseteq> set (take t (vals child))"
    by (auto dest: in_set_butlastD)
  from assms(2) False show ?thesis
    unfolding split_child_def Let_def child_def[symmetric] new_node_def[symmetric] cchildren_def[symmetric]
    using s_pc[OF s_left[OF subset_refl]] s_pc[OF s_left[OF bl]] pv lastv
    by (auto simp: set_insert_at split: if_splits)
qed

lemma insert_non_full_short:
  "short_lists node \<Longrightarrow> insert_non_full t True node key r = (e, node') \<Longrightarrow> short_lists node'"
proof (induction node arbitrary: e node' rule: measure_induct_rule[of size])
  case (less node)
  define pos where "pos = insert_pos key (keys node)"
  note sh = less.prems(1) and res = less.prems(2)
  have upd: "short_lists (Node (keys n) (vals n) ((children n)[i := c]) (is_leaf n))"
    if "short_lists n" "short_lists c" for n i c
    using that by (auto simp: short_lists_sel[of n] dest!: set_update_subset_insert[THEN subsetD])
  have same: "short_lists (Node (keys n) (vals n) (children n) (is_leaf n))" if "short_lists n" for n
    using that by (simp add: short_lists_sel[of n])
  show ?case
  proof (cases "found_at key (keys node) pos")
    case True
    obtain e1 vs' where a: "add_row_id True (vals node) (pos - 1) r = (e1, vs')"
      by (cases "add_row_id True (vals node) (pos - 1) r")
    with inf_found[OF True[unfolded pos_def], of t True r] res
    have "node' = Node (keys node) vs' (children node) (is_leaf node)" by (simp add: pos_def)
    with add_row_id_unique[OF a] same[OF sh] show ?thesis by simp
  next
    case nf: False
    show ?thesis
    proof (cases "is_leaf node")
      case True
      from inf_leaf[OF nf[unfolded pos_def] True, of t True r] res
      have "node' = Node (insert_at pos key (keys node)) (insert_at pos [r] (vals node)) (children node) (is_leaf node)"
        by (simp add: pos_def)
      with sh show ?thesis by (auto simp: set_insert_at short_lists_sel[of node])
    next
      case False
      show ?thesis
      proof (cases "pos < length (children node)")
        case out: False
        with res nf False have "node' = node"
          by (subst (asm) insert_non_full.simps) (simp add: Let_def pos_def)
        with sh show ?thesis by simp
      next
        case plt: True
        show ?thesis
        proof (cases "full t (children node ! pos)")
          case notfull: False
          obtain e1 c where c: "insert_non_full t True (children node ! pos) key r = (e1, c)"
            by (cases "insert_non_full t True (children node ! pos) key r")
          with inf_descend[OF nf[unfolded pos_def] False plt[unfolded pos_def] notfull[unfolded pos_def], of True r] res
          have n': "node' = Node (keys node) (vals node) ((children node)[pos := c]) (is_leaf node)"
            by (simp add: pos_def)
          have sz: "size (children node ! pos) < size node"
            using plt by (cases node) (auto simp: size_nth_less)
          have "short_lists (children node ! pos)" using sh plt by (simp add: short_lists_sel[of node])
          from less.IH[OF sz this c] upd[OF sh] n' show ?thesis by simp
        next
          case isfull: True
          obtain e1 n1 where sc: "split_child t node pos = (e1, n1)" by (cases "split_child t node pos")
          from split_child_short[OF sh sc] have s1: "short_lists n1" .
          show ?thesis
          proof (cases e1)
            case (Some err)
            with res nf False plt isfull sc have "node' = n1"
              by (subst (asm) insert_non_full.simps) (simp add: Let_def pos_def)
            with s1 show ?thesis by simp
          next
            case None
            note sc' = sc[unfolded None]
            show ?thesis
            proof (cases "compare_keys key (keys n1 ! pos) = 0")
              case True
              obtain e2 vs' where a: "add_row_id True (vals n1) pos r = (e2, vs')"
                by (cases "add_row_id True (vals n1) pos r")
              with inf_split_found[OF nf[unfolded pos_def] False plt[unfolded pos_def] isfull[unfolded pos_def]
                  sc'[unfolded pos_def] True[unfolded pos_def], of True r] res
              have "node' = Node (keys n1) vs' (children n1) (is_leaf n1)" by (simp add: pos_def)
              with add_row_id_unique[OF a] same[OF s1] show ?thesis by simp
            next
              case neq: False
              define i where "i = (if compare_keys key (keys n1 ! pos) > 0 then pos + 1 else pos)"
              show ?thesis
              proof (cases "i < length (children n1)")
                case out: False
                with res nf \<open>\<not> is_leaf node\<close> plt isfull sc' neq have "node' = n1"
                  by (subst (asm) insert_non_full.simps) (auto simp: Let_def pos_def i_def split: if_splits)
                with s1 show ?thesis by simp
              next
                case ilt: True
                obtain e2 c where c: "insert_non_full t True (children n1 ! i) key r = (e2, c)"
                  by (cases "insert_non_full t True (children n1 ! i) key r")
                with inf_split_descend[OF nf[unfolded pos_def] \<open>\<not> is_leaf node\<close> plt[unfolded pos_def] isfull[unfolded pos_def]
                    sc'[unfolded pos_def] neq[unfolded pos_def] i_def[unfolded pos_def] ilt, of True r] res
                have n': "node' = Node (keys n1) (vals n1) ((children n1)[i := c]) (is_leaf n1)"
                  by simp
                have sz: "size (children n1 ! i) < size node"
                  using split_child_size_nth[OF sc'[symmetric] ilt] .
                have "short_lists (children n1 ! i)" using s1 ilt by (simp add: short_lists_sel[of n1])
                from less.IH[OF sz this c] upd[OF s1] n' show ?thesis by simp
              qed
            qed
          qed
        qed
      qed
    qed
  qed
qed

lemma delete_node_short:
  "short_lists node \<Longrightarrow> delete_node node key r = Inr (node', b) \<Longrightarrow> short_lists node'"
proof (induction node arbitrary: node' b rule: measure_induct_rule[of size])
  case (less node)
  define i where "i = search_pos key (keys node)"
  note res = less.prems(2)[unfolded delete_node.simps[of node key r], folded i_def, unfolded Let_def]
  note sh = less.prems(1)
  show ?case
  proof (cases "i < length (keys node) \<and> compare_keys key (keys node ! i) = 0")
    case True
    show ?thesis
    proof (cases "length (vals node) \<le> i \<or> r \<notin> set (vals node ! i)")
      case True
      with res \<open>i < length (keys node) \<and> compare_keys key (keys node ! i) = 0\<close> have "node' = node"
        by (auto split: if_splits)
      with sh show ?thesis by simp
    next
      case False
      with res True have n': "node' = Node (keys node) ((vals node)[i := remove1 r (vals node ! i)]) (children node) (is_leaf node)"
        by (auto split: if_splits)
      have "length (remove1 r (vals node ! i)) \<le> 1"
        using sh False by (auto simp: short_lists_sel[of node] length_remove1 intro: le_trans[OF diff_le_self])
      with sh n' show ?thesis
        by (auto simp: short_lists_sel[of node] dest!: set_update_subset_insert[THEN subsetD])
    qed
  next
    case nf: False
    show ?thesis
    proof (cases "is_leaf node \<or> length (children node) \<le> i")
      case True
      with res nf have "node' = node" by (auto split: if_splits)
      with sh show ?thesis by simp
    next
      case False
      with res nf obtain c where c: "delete_node (children node ! i) key r = Inr (c, b)"
        and n': "node' = Node (keys node) (vals node) ((children node)[i := c]) (is_leaf node)"
        by (auto split: if_splits sum.splits)
      have sz: "size (children node ! i) < size node"
        using False by (cases node) (auto simp: size_nth_less)
      have "short_lists (children node ! i)" using sh False by (simp add: short_lists_sel[of node])
      from less.IH[OF sz this c] sh n' show ?thesis
        by (auto simp: short_lists_sel[of node] dest!: set_update_subset_insert[THEN subsetD])
    qed
  qed
qed

lemma index_step_short:
  assumes "unique_index idx" "short_lists (root idx)"
  shows "unique_index (index_step idx op) \<and> short_lists (root (index_step idx op))"
proof (cases op)
  case (IndexInsert key r)
  show ?thesis
  proof (cases "full (order idx) (root idx)")
    case False
    obtain e1 r1 where r1: "insert_non_full (order idx) True (root idx) key r = (e1, r1)"
      by (cases "insert_non_full (order idx) True (root idx) key r")
    from insert_non_full_short[OF assms(2) r1] r1 False assms(1) IndexInsert show ?thesis
      by (simp add: btree_insert_def)
  next
    case True
    obtain e0 n1 where sc: "split_child (order idx) (Node [] [] [root idx] False) 0 = (e0, n1)"
      by (cases "split_child (order idx) (Node [] [] [root idx] False) 0")
    have "short_lists (Node [] [] [root idx] False)" using assms(2) by simp
    from split_child_short[OF this sc] have s1: "short_lists n1" .
    show ?thesis
    proof (cases e0)
      case (Some err)
      with sc True s1 assms(1) IndexInsert show ?thesis by (simp add: btree_insert_def)
    next
      case None
      obtain e1 r1 where r1: "insert_non_full (order idx) True n1 key r = (e1, r1)"
        by (cases "insert_non_full (order idx) True n1 key r")
      from insert_non_full_short[OF s1 r1] r1 sc None True assms(1) IndexInsert show ?thesis
        by (simp add: btree_insert_def)
    qed
  qed
next
  case (IndexDelete key r)
  show ?thesis
  proof (cases "delete_node (root idx) key r")
    case (Inl e)
    with IndexDelete assms show ?thesis by (simp add: btree_delete_def)
  next
    case (Inr p)
    obtain n b where p: "p = (n, b)" by (cases p)
    from delete_node_short[OF assms(2) Inr[unfolded p]] Inr p IndexDelete assms(1) show ?thesis
      by (simp add: btree_delete_def)
  qed
qed

lemma index_run_short:
  "unique_index idx \<Longrightarrow> short_lists (root idx) \<Longrightarrow> short_lists (root (foldl index_step idx ops))"
  by (induction ops arbitrary: idx) (simp_all add: index_step_short)

lemma join_set: "set (join ls es) \<subseteq> \<Union> (set ` set ls) \<union> set es"
  by (induction ls es rule: join.induct) auto

lemma short_lists_inorder:
  "short_lists node \<Longrightarrow> (k, rs) \<in> set (inorder node) \<Longrightarrow> length rs \<le> 1"
proof (induction node arbitrary: k rs rule: measure_induct_rule[of size])
  case (less node)
  obtain ks vs cs l where node: "node = Node ks vs cs l" by (cases node)
  show ?case
  proof (cases "(k, rs) \<in> set (zip ks vs)")
    case True
    then have "rs \<in> set vs" by (rule set_zip_rightD)
    with less.prems(1) node show ?thesis by simp
  next
    case False
    with less.prems(2) node join_set[of "map inorder cs" "zip ks vs"]
    obtain c where c: "c \<in> set cs" "(k, rs) \<in> set (inorder c)"
      by (auto split: if_splits)
    then have "size c < size node" using node by (auto dest: size_mem_less)
    moreover have "short_lists c" using less.prems(1) c node by simp
    ultimately show ?thesis using less.IH c(2) by blast
  qed
qed

section \<open>Helper facts: INSERT\<close>

lemma insert_rows_append:
  "insert_rows cols st (xs @ ys) =
     (case insert_rows cols st xs of
        (None, st') \<Rightarrow> insert_rows cols st' ys
      | (Some e, st') \<Rightarrow> (Some e, st'))"
proof (induction xs arbitrary: st)
  case Nil
  then show ?case by simp
next
  case (Cons x xs)
  obtain ts idxs n where st: "st = (ts, idxs, n)" by (cases st)
  show ?case unfolding st
    by (auto simp: Cons.IH split: sum.splits prod.splits option.splits)
qed

lemma slot_pairs_append: "slot_pairs (a @ b) = slot_pairs a \<union> slot_pairs b"
  by (auto simp: slot_pairs_def)

lemma slot_pairs_Cons: "slot_pairs ((k, rs) # b) = (\<lambda>r. (k, r)) ` set rs \<union> slot_pairs b"
  by (auto simp: slot_pairs_def)

lemma insert_non_full_mono:
  "well_shaped node \<Longrightarrow> insert_non_full t u node key r = (e, node') \<Longrightarrow>
   well_shaped node' \<and> slot_pairs (inorder node) \<subseteq> slot_pairs (inorder node')"
proof (induction node arbitrary: e node' rule: measure_induct_rule[of size])
  case (less node)
  note wfn = less.prems(1) and res = less.prems(2)
  obtain ks vs cs l where node: "node = Node ks vs cs l" by (cases node)
  define pos where "pos = insert_pos key (keys node)"
  have P1: "pos \<le> length (keys node)" by (simp add: pos_def insert_pos_le)
  have entry: "well_shaped (Node (keys n) vs' (children n) (is_leaf n))
        \<and> slot_pairs (inorder n) \<subseteq> slot_pairs (inorder (Node (keys n) vs' (children n) (is_leaf n)))"
    if h: "well_shaped n" "i < length (keys n)" "add_row_id u (vals n) i r = (e', vs')" for n i e' vs'
  proof -
    obtain ks vs cs l where n: "n = Node ks vs cs l" by (cases n)
    from h(1,2) n have len: "i < length vs" by auto
    from node_entry[of ks vs cs l i] h(1,2) n obtain A B where
      AB: "\<And>v'. inorder (Node ks (vs[i := v']) cs l) = A @ (ks ! i, v') # B" by auto
    from h(3) len n have "vs' = vs \<or> vs' = vs[i := vs ! i @ [r]]"
      by (auto simp: add_row_id_def split: if_splits)
    then show ?thesis
    proof
      assume "vs' = vs"
      with h(1) n show ?thesis by simp
    next
      assume v: "vs' = vs[i := vs ! i @ [r]]"
      have "slot_pairs (A @ (ks ! i, vs ! i) # B) \<subseteq> slot_pairs (A @ (ks ! i, vs ! i @ [r]) # B)"
        by (auto simp: slot_pairs_append slot_pairs_Cons)
      with AB[of "vs ! i"] AB[of "vs ! i @ [r]"] v n h(1) show ?thesis by simp
    qed
  qed
  have descend: "well_shaped (Node (keys n) (vals n) ((children n)[i := c]) (is_leaf n))
        \<and> slot_pairs (inorder n) \<subseteq> slot_pairs (inorder (Node (keys n) (vals n) ((children n)[i := c]) (is_leaf n)))"
    if h: "well_shaped n" "\<not> is_leaf n" "i < length (children n)" "well_shaped c"
       "slot_pairs (inorder (children n ! i)) \<subseteq> slot_pairs (inorder c)" for n i c
  proof -
    obtain ks vs cs where n: "n = Node ks vs cs False" using h(2) by (cases n) auto
    from h(1,3) n have "i \<le> length ks" by simp
    from node_child[of ks vs cs i] h(1) n this obtain A B where
      AB: "\<And>c'. inorder (Node ks vs (cs[i := c']) False) = A @ inorder c' @ B" by auto
    have "well_shaped (Node ks vs (cs[i := c]) False)"
      using h(1,4) n by (auto dest!: set_update_subset_insert[THEN subsetD])
    moreover have "slot_pairs (A @ inorder (cs ! i) @ B) \<subseteq> slot_pairs (A @ inorder c @ B)"
      using h(5) n by (auto simp: slot_pairs_append)
    ultimately show ?thesis using AB[of c] AB[of "cs ! i"] n by simp
  qed
  show ?case
  proof (cases "found_at key (keys node) pos")
    case True
    then have "0 < pos" by (simp add: found_at_def)
    with P1 have i: "pos - 1 < length (keys node)" by arith
    obtain e1 vs' where a: "add_row_id u (vals node) (pos - 1) r = (e1, vs')"
      by (cases "add_row_id u (vals node) (pos - 1) r")
    with inf_found[OF True[unfolded pos_def], of t u r] res
    have n': "node' = Node (keys node) vs' (children node) (is_leaf node)" by (simp add: pos_def)
    from entry[OF wfn i a] show ?thesis unfolding n' .
  next
    case nf: False
    show ?thesis
    proof (cases "is_leaf node")
      case True
      from inf_leaf[OF nf[unfolded pos_def] True, of t u r] res
      have n': "node' = Node (insert_at pos key (keys node)) (insert_at pos [r] (vals node)) (children node) (is_leaf node)"
        by (simp add: pos_def)
      from wfn True node have len: "length vs = length ks" "cs = []" "l" by auto
      have new: "zip (insert_at pos key ks) (insert_at pos [r] vs)
                 = zip (take pos ks) (take pos vs) @ (key, [r]) # zip (drop pos ks) (drop pos vs)"
        using P1 node len by (simp add: insert_at_def)
      have old: "zip ks vs = zip (take pos ks) (take pos vs) @ zip (drop pos ks) (drop pos vs)"
        by (simp add: zip_append[symmetric] len del: zip_append)
      have "slot_pairs (zip ks vs) \<subseteq> slot_pairs (zip (insert_at pos key ks) (insert_at pos [r] vs))"
        by (subst old, subst new) (auto simp: slot_pairs_append slot_pairs_Cons)
      with n' node len show ?thesis by (simp add: insert_at_def)
    next
      case False
      with wfn have lc: "length (children node) = Suc (length (keys node))"
        by (cases node) auto
      with P1 have plt: "pos < length (children node)" by simp
      show ?thesis
      proof (cases "full t (children node ! pos)")
        case notfull: False
        obtain e1 c where c: "insert_non_full t u (children node ! pos) key r = (e1, c)"
          by (cases "insert_non_full t u (children node ! pos) key r")
        with inf_descend[OF nf[unfolded pos_def] False plt[unfolded pos_def] notfull[unfolded pos_def], of u r] res
        have n': "node' = Node (keys node) (vals node) ((children node)[pos := c]) (is_leaf node)"
          by (simp add: pos_def)
        have sz: "size (children node ! pos) < size node"
          using plt by (cases node) (auto simp: size_nth_less)
        have wfc: "well_shaped (children node ! pos)" using wfn plt by (cases node) auto
        from less.IH[OF sz wfc c] have ih: "well_shaped c" "slot_pairs (inorder (children node ! pos)) \<subseteq> slot_pairs (inorder c)"
          by blast+
        show ?thesis unfolding n' by (rule descend[OF wfn False plt ih])
      next
        case isfull: True
        from split_ok[OF wfn False plt isfull] obtain n1 mk mv where
          sc: "split_child t node pos = (None, n1)" and wf1: "well_shaped n1" and io1: "inorder n1 = inorder node"
          and nl1: "\<not> is_leaf n1" and k1: "keys n1 = insert_at pos mk (keys node)" by blast
        have len1: "length (keys n1) = Suc (length (keys node))" using k1 by (simp add: insert_at_length)
        from wf1 nl1 have lc1: "length (children n1) = Suc (length (keys n1))" by (cases n1) auto
        show ?thesis
        proof (cases "compare_keys key (keys n1 ! pos) = 0")
          case True
          obtain e2 vs' where a: "add_row_id u (vals n1) pos r = (e2, vs')"
            by (cases "add_row_id u (vals n1) pos r")
          with inf_split_found[OF nf[unfolded pos_def] False plt[unfolded pos_def] isfull[unfolded pos_def]
              sc[unfolded pos_def] True[unfolded pos_def], of u r] res
          have n': "node' = Node (keys n1) vs' (children n1) (is_leaf n1)" by (simp add: pos_def)
          have "pos < length (keys n1)" using len1 P1 by simp
          from entry[OF wf1 this a] show ?thesis unfolding n' io1 .
        next
          case neq: False
          define i where "i = (if compare_keys key (keys n1 ! pos) > 0 then pos + 1 else pos)"
          have ilt: "i < length (children n1)" using lc1 len1 P1 by (simp add: i_def)
          obtain e2 c where c: "insert_non_full t u (children n1 ! i) key r = (e2, c)"
            by (cases "insert_non_full t u (children n1 ! i) key r")
          with inf_split_descend[OF nf[unfolded pos_def] False plt[unfolded pos_def] isfull[unfolded pos_def]
              sc[unfolded pos_def] neq[unfolded pos_def] i_def[unfolded pos_def] ilt, of u r] res
          have n': "node' = Node (keys n1) (vals n1) ((children n1)[i := c]) (is_leaf n1)"
            by simp
          have sz: "size (children n1 ! i) < size node"
            using split_child_size_nth[OF sc[symmetric] ilt] .
          have wfc: "well_shaped (children n1 ! i)" using wf1 ilt by (cases n1) auto
          from less.IH[OF sz wfc c] have ih: "well_shaped c" "slot_pairs (inorder (children n1 ! i)) \<subseteq> slot_pairs (inorder c)"
            by blast+
          from descend[OF wf1 nl1 ilt ih] show ?thesis unfolding n' io1 .
        qed
      qed
    qed
  qed
qed

lemma btree_insert_mono:
  assumes "well_shaped (root idx)" "btree_insert idx key r = (e, idx')"
  shows "well_shaped (root idx')" "index_pairs idx \<subseteq> index_pairs idx'"
proof -
  have "well_shaped (root idx') \<and> index_pairs idx \<subseteq> index_pairs idx'"
  proof (cases "full (order idx) (root idx)")
    case False
    obtain e1 r1 where r1: "insert_non_full (order idx) (unique_index idx) (root idx) key r = (e1, r1)"
      by (cases "insert_non_full (order idx) (unique_index idx) (root idx) key r")
    with False assms(2) have eq: "idx' = idx\<lparr>root := r1\<rparr>"
      by (simp_all add: btree_insert_def)
    from insert_non_full_mono[OF assms(1) r1] show ?thesis
      using eq by (simp add: entries_def index_pairs_def)
  next
    case True
    let ?nr = "Node [] [] [root idx] False"
    have wfnr: "well_shaped ?nr" using assms(1) by simp
    have ionr: "inorder ?nr = inorder (root idx)" by simp
    from split_ok[of ?nr 0 "order idx"] wfnr True obtain n1 where
      sc: "split_child (order idx) ?nr 0 = (None, n1)" and wf1: "well_shaped n1" and io1: "inorder n1 = inorder ?nr"
      by auto
    obtain e1 r1 where r1: "insert_non_full (order idx) (unique_index idx) n1 key r = (e1, r1)"
      by (cases "insert_non_full (order idx) (unique_index idx) n1 key r")
    with True sc assms(2) have eq: "idx' = idx\<lparr>root := r1\<rparr>"
      by (simp_all add: btree_insert_def)
    from insert_non_full_mono[OF wf1 r1] show ?thesis
      using eq io1 ionr by (simp add: entries_def index_pairs_def)
  qed
  then show "well_shaped (root idx')" "index_pairs idx \<subseteq> index_pairs idx'" by blast+
qed

lemma indexes_kept_refl: "indexes_kept idxs idxs"
  by (simp add: indexes_kept_def list_all2_refl split_beta)

lemma indexes_kept_trans: "indexes_kept a b \<Longrightarrow> indexes_kept b c \<Longrightarrow> indexes_kept a c"
  unfolding indexes_kept_def list_all2_conv_all_nth
  by (auto simp: split_beta) blast

lemma update_indexes_mono:
  "indexes_well_shaped idxs \<Longrightarrow> update_indexes idxs r row_id = (e, idxs') \<Longrightarrow>
   indexes_well_shaped idxs' \<and> indexes_kept idxs idxs'"
proof (induction idxs arbitrary: e idxs')
  case Nil
  then show ?case by (simp add: indexes_kept_def)
next
  case (Cons a idxs)
  obtain c i where a: "a = (c, i)" by (cases a)
  from Cons.prems(1) a have wfi: "well_shaped (root i)" and wfr: "indexes_well_shaped idxs"
    by (simp_all add: indexes_well_shaped_def)
  obtain e2 rest' where u: "update_indexes idxs r row_id = (e2, rest')"
    by (cases "update_indexes idxs r row_id")
  from Cons.IH[OF wfr u] have ih: "indexes_well_shaped rest'" "indexes_kept idxs rest'" by auto
  show ?case
  proof (cases "dict_get r c \<noteq> VNull")
    case False
    with Cons.prems(2) a u have "idxs' = (c, i) # rest'" by simp
    with ih wfi a show ?thesis by (simp add: indexes_well_shaped_def indexes_kept_def)
  next
    case True
    obtain e1 i' where b: "btree_insert i (dict_get r c) row_id = (e1, i')"
      by (cases "btree_insert i (dict_get r c) row_id")
    note m = btree_insert_mono[OF wfi b]
    show ?thesis
    proof (cases e1)
      case None
      with Cons.prems(2) a u b True have "idxs' = (c, i') # rest'" by simp
      with ih m a show ?thesis by (simp add: indexes_well_shaped_def indexes_kept_def)
    next
      case (Some err)
      with Cons.prems(2) a b True have "idxs' = (c, i') # idxs" by simp
      with wfr m a indexes_kept_refl[of idxs] show ?thesis
        by (simp add: indexes_well_shaped_def indexes_kept_def)
    qed
  qed
qed

lemma dict_set_fresh: "k \<notin> fst ` set d \<Longrightarrow> dict_set d k v = d @ [(k, v)]"
  by (induction d) auto

lemma storage_insert_fresh:
  assumes "fresh_ids ts" "storage_insert ts r = Inr (ts', row_id)"
  shows "fresh_ids ts'" "\<exists>vr. rows ts' = rows ts @ [(row_id, vr)]" "schema ts' = schema ts"
proof -
  note p = storage_insert_props[OF assms(2)]
  from p(4) obtain vr where vr: "rows ts' = dict_set (rows ts) row_id vr" by blast
  from assms(1) p(1) have "row_id \<notin> fst ` set (rows ts)" by (auto simp: fresh_ids_def)
  from dict_set_fresh[OF this] vr have r: "rows ts' = rows ts @ [(row_id, vr)]" by simp
  then show "\<exists>vr. rows ts' = rows ts @ [(row_id, vr)]" by blast
  show "fresh_ids ts'" using assms(1) r p(1,2) by (auto simp: fresh_ids_def)
  show "schema ts' = schema ts" by (rule p(3))
qed

lemma kept_refl: "kept st st"
  by (cases st) (simp add: kept_def indexes_kept_refl)

lemma kept_trans: "kept a b \<Longrightarrow> kept b c \<Longrightarrow> kept a c"
  by (cases a; cases b; cases c) (auto simp: kept_def intro: indexes_kept_trans)

lemma insert_rows_inv:
  "state_inv st \<Longrightarrow> insert_rows cols st vrows = (e, st') \<Longrightarrow>
   state_inv st' \<and> kept st st'
   \<and> (e = None \<longrightarrow> length (rows (fst st')) = length (rows (fst st)) + length vrows
                  \<and> snd (snd st') = snd (snd st) + length vrows)"
proof (induction vrows arbitrary: st)
  case Nil
  then show ?case by (simp add: kept_refl)
next
  case (Cons v vrows)
  obtain ts idxs n where st: "st = (ts, idxs, n)" by (cases st)
  from Cons.prems(1) st have inv: "fresh_ids ts" "indexes_well_shaped idxs" by (simp_all add: state_inv_def)
  show ?case
  proof (cases "make_row cols (schema ts) v")
    case (Inl err)
    with Cons.prems st show ?thesis by (auto simp: kept_refl)
  next
    case (Inr r)
    show ?thesis
    proof (cases "storage_insert ts r")
      case (Inl err)
      with Cons.prems st Inr show ?thesis by (auto simp: kept_refl)
    next
      case ins: (Inr p)
      obtain ts' row_id where p: "p = (ts', row_id)" by (cases p)
      note f = storage_insert_fresh[OF inv(1) ins[unfolded p]]
      obtain e1 idxs' where u: "update_indexes idxs r row_id = (e1, idxs')"
        by (cases "update_indexes idxs r row_id")
      note m = update_indexes_mono[OF inv(2) u]
      have inv1: "state_inv (ts', idxs', k)" for k using f(1) m by (simp add: state_inv_def)
      have k1: "kept st (ts', idxs', k)" for k using f(2) m st by (auto simp: kept_def)
      show ?thesis
      proof (cases e1)
        case (Some err)
        with Cons.prems(2) st Inr ins p u have "e = Some err" "st' = (ts', idxs', n)" by simp_all
        with inv1 k1 show ?thesis by simp
      next
        case None
        with Cons.prems(2) st Inr ins p u have r: "insert_rows cols (ts', idxs', n + 1) vrows = (e, st')"
          by simp
        from Cons.IH[OF inv1 r] k1[of "n + 1"] f(2) st show ?thesis
          by (auto intro: kept_trans)
      qed
    qed
  qed
qed

lemma insert_rows_fail_first:
  "insert_rows cols st [x] = (Some e, st') \<Longrightarrow> insert_rows cols st (x # rest) = (Some e, st')"
  by (cases st) (auto split: sum.splits prod.splits option.splits)

section \<open>The claims of the specification\<close>

subsection \<open>C1: comparisons with NULL\<close>

text \<open>
  Claim C1 says that in a WHERE predicate a comparison with a NULL operand is false, and in
  particular that \<open>NULL = NULL\<close> is false and selects no row.  The four ordering operators
  test their operands for \<open>None\<close> and yield false, as the claim says.  The operators \<open>=\<close>,
  \<open>!=\<close> and \<open><>\<close> make no such test: they are Python's \<open>==\<close> and \<open>!=\<close>, so
  \<open>NULL = NULL\<close> is true, \<open>1 != NULL\<close> is true, and the predicate \<open>a = b\<close> keeps a row
  in which both columns are NULL.  The theorem evaluates the code on these inputs, for any
  row and any tables.
\<close>

theorem null_comparisons:
  "evaluate r tbls (BinaryOp (Literal VNull) ''='' (Literal VNull)) = Inr (VBool True)
   \<and> evaluate r tbls (BinaryOp (Literal (VInt 1)) ''!='' (Literal VNull)) = Inr (VBool True)
   \<and> evaluate r tbls (BinaryOp (Literal VNull) ''<>'' (Literal (VStr ''a''))) = Inr (VBool True)
   \<and> evaluate r tbls (BinaryOp (Literal VNull) ''<'' (Literal (VInt 1))) = Inr (VBool False)
   \<and> evaluate r tbls (BinaryOp (Literal (VInt 1)) ''>='' (Literal VNull)) = Inr (VBool False)
   \<and> apply_where (Some (BinaryOp (ColumnRef ''a'' None None) ''='' (ColumnRef ''b'' None None)))
        [[(''t'', Tbl [(''a'', VNull), (''b'', VNull)])]]
      = Inr [[(''t'', Tbl [(''a'', VNull), (''b'', VNull)])]]"
proof -
  have w: "apply_where (Some (BinaryOp (ColumnRef ''a'' None None) ''='' (ColumnRef ''b'' None None)))
        [[(''t'', Tbl [(''a'', VNull), (''b'', VNull)])]]
      = Inr [[(''t'', Tbl [(''a'', VNull), (''b'', VNull)])]]"
    by code_simp
  show ?thesis
    by (simp add: binary_result_def w)
qed
subsection \<open>C6: serialising a value and reading it back\<close>

text \<open>
  Claim C6 says that \<open>deserialize\<close> after \<open>serialize\<close> is the identity on every non-NULL
  value of every column type.  The string \<open>'NULL'\<close> is a value of a TEXT column and of a
  VARCHAR column wide enough (the validation accepts it unchanged); \<open>serialize\<close> returns it
  as it is, and \<open>deserialize\<close> reads that string as \<open>None\<close>, the rendering \<open>serialize\<close>
  gives to \<open>None\<close> itself.  The theorem evaluates the code on this input.
\<close>

theorem null_text_roundtrip:
  "validate_and_convert (VStr ''NULL'') \<lparr>dtype = TEXT, size_limit = None\<rparr> = Inr (VStr ''NULL'')
   \<and> serialize (VStr ''NULL'') \<lparr>dtype = TEXT, size_limit = None\<rparr> = Inr (VStr ''NULL'')
   \<and> deserialize (VStr ''NULL'') \<lparr>dtype = TEXT, size_limit = None\<rparr> = Inr VNull
   \<and> roundtrip (VStr ''NULL'') \<lparr>dtype = TEXT, size_limit = None\<rparr> = Inr VNull
   \<and> roundtrip (VStr ''NULL'') \<lparr>dtype = VARCHAR, size_limit = Some 10\<rparr> = Inr VNull"
  by (simp add: validate_and_convert_def serialize_def deserialize_def roundtrip_def)
subsection \<open>C8: LIMIT 0 and OFFSET 0\<close>

text \<open>
  Claim C8: a LIMIT of 0 and an OFFSET of 0 are treated as absent.  The stage tests
  \<open>if stmt.offset:\<close> and \<open>if stmt.limit:\<close>, and 0 is false as \<open>None\<close> is.  So, whatever the
  rest of the statement and whatever the rows that reach the stage: with LIMIT 0 the stage
  returns what it returns with no LIMIT, with OFFSET 0 what it returns with no OFFSET, and
  with no other bound present it returns all the rows.
\<close>

theorem limit_offset_zero:
  "apply_limit_offset (stmt\<lparr>limit := Some 0\<rparr>) rws = apply_limit_offset (stmt\<lparr>limit := None\<rparr>) rws
   \<and> apply_limit_offset (stmt\<lparr>offset := Some 0\<rparr>) rws = apply_limit_offset (stmt\<lparr>offset := None\<rparr>) rws
   \<and> apply_limit_offset (stmt\<lparr>limit := Some 0, offset := None\<rparr>) rws = rws
   \<and> apply_limit_offset (stmt\<lparr>limit := None, offset := Some 0\<rparr>) rws = rws
   \<and> apply_limit_offset (stmt\<lparr>limit := Some 0, offset := Some 0\<rparr>) rws = rws"
  by (simp add: apply_limit_offset_def opt_int_truthy_def)

end
